theory Spec2Isabelle
  imports Complex_Main
begin

section \<open>Data models (src/models/data\_models.py)\<close>

text \<open>
  \<^verbatim>\<open>FileState\<close> is a Python \<^verbatim>\<open>Enum\<close>; its members are listed in source order and
  \<open>file_state_value\<close> gives the string value of each member.
\<close>

datatype file_state = PENDING | PROCESSING | READY | PLAYING | COMPLETED

fun file_state_value :: "file_state \<Rightarrow> string" where
  "file_state_value PENDING = ''pending''"
| "file_state_value PROCESSING = ''processing''"
| "file_state_value READY = ''ready''"
| "file_state_value PLAYING = ''playing''"
| "file_state_value COMPLETED = ''completed''"

text \<open>
  Times are Python floats that are only ever copied and compared; they are modelled as
  real numbers (no NaN). Texts and language codes are strings.
\<close>

record transcript_segment =
  ts_start_time :: real
  ts_end_time :: real
  ts_text :: string
  ts_language :: string

record translation_segment =
  start_time :: real
  end_time :: real
  original_text :: string
  translated_text :: string
  source_language :: string
  target_language :: string

text \<open>A \<^verbatim>\<open>SubtitleManager\<close> object holds exactly one field, its list of segments.\<close>

type_synonym subtitle_manager = "translation_segment list"

record playlist_item =
  file_path :: string
  file_name :: string
  state :: file_state
  item_subtitle_manager :: "subtitle_manager option"

section \<open>Path helpers used by the queue (posixpath flavour of os.path)\<close>

text \<open>\<^verbatim>\<open>str.rfind\<close> for a single character: the last index, or \<open>-1\<close>.\<close>

fun rfind_from :: "char \<Rightarrow> string \<Rightarrow> nat \<Rightarrow> int \<Rightarrow> int" where
  "rfind_from c [] i r = r"
| "rfind_from c (x # xs) i r = rfind_from c xs (Suc i) (if x = c then int i else r)"

definition rfind :: "char \<Rightarrow> string \<Rightarrow> int" where
  "rfind c p = rfind_from c p 0 (- 1)"

text \<open>
  The loop of \<^verbatim>\<open>genericpath._splitext\<close> that skips leading dots of the file name:
  the name splits at the last dot only when a character other than a dot precedes it.
\<close>

function skip_leading_dots :: "string \<Rightarrow> nat \<Rightarrow> nat \<Rightarrow> string \<times> string" where
  "skip_leading_dots p filenameIndex dotIndex =
     (if filenameIndex < dotIndex then
        (if take 1 (drop filenameIndex p) \<noteq> ''.'' then (take dotIndex p, drop dotIndex p)
         else skip_leading_dots p (Suc filenameIndex) dotIndex)
      else (p, []))"
  by pat_completeness auto
termination
  by (relation "measure (\<lambda>(p, filenameIndex, dotIndex). dotIndex - filenameIndex)") auto

definition splitext :: "string \<Rightarrow> string \<times> string" where
  "splitext p =
     (let sepIndex = rfind CHR ''/'' p;
          dotIndex = rfind CHR ''.'' p
      in if dotIndex > sepIndex then skip_leading_dots p (nat (sepIndex + 1)) (nat dotIndex)
         else (p, []))"

definition basename :: "string \<Rightarrow> string" where
  "basename p = drop (nat (rfind CHR ''/'' p + 1)) p"

text \<open>\<^verbatim>\<open>str.lower\<close>, on the ASCII letters (the only ones that can produce an allowed extension).\<close>

definition lower_char :: "char \<Rightarrow> char" where
  "lower_char c =
     (let n = (of_char c :: nat) in if 65 \<le> n \<and> n \<le> 90 then char_of (n + 32) else c)"

definition lower :: "string \<Rightarrow> string" where
  "lower s = map lower_char s"

section \<open>FileQueue (src/models/file\_queue.py)\<close>

record file_queue =
  items :: "playlist_item list"
  current_index :: int

definition MAX_FILES :: nat where
  "MAX_FILES = 5"

definition SUPPORTED_FORMATS :: "string set" where
  "SUPPORTED_FORMATS = {''.wav'', ''.mp3''}"

text \<open>\<^verbatim>\<open>FileQueue.__init__\<close>\<close>

definition new_queue :: file_queue where
  "new_queue = \<lparr>items = [], current_index = - 1\<rparr>"

definition count :: "file_queue \<Rightarrow> nat" where
  "count q = length (items q)"

definition is_full :: "file_queue \<Rightarrow> bool" where
  "is_full q = (length (items q) \<ge> MAX_FILES)"

text \<open>The range test \<^verbatim>\<open>0 <= index < len(self._items)\<close> that guards every indexed operation.\<close>

definition in_range :: "int \<Rightarrow> file_queue \<Rightarrow> bool" where
  "in_range index q = (0 \<le> index \<and> index < int (length (items q)))"

definition current_file :: "file_queue \<Rightarrow> string option" where
  "current_file q =
     (if 0 \<le> current_index q \<and> current_index q < int (length (items q))
      then Some (file_path (items q ! nat (current_index q))) else None)"

definition has_next :: "file_queue \<Rightarrow> bool" where
  "has_next q = (current_index q < int (length (items q)) - 1)"

definition is_valid_format :: "string \<Rightarrow> bool" where
  "is_valid_format path = (lower (snd (splitext path)) \<in> SUPPORTED_FORMATS)"

text \<open>The constructor call \<^verbatim>\<open>PlaylistItem(file_path=path, file_name=file_name)\<close> with its defaults.\<close>

definition new_item :: "string \<Rightarrow> playlist_item" where
  "new_item path =
     \<lparr>file_path = path, file_name = basename path, state = PENDING,
      item_subtitle_manager = None\<rparr>"

text \<open>
  \<^verbatim>\<open>add_files\<close>: the \<^verbatim>\<open>for\<close> loop over the paths with its \<^verbatim>\<open>break\<close> (queue full) and
  \<^verbatim>\<open>continue\<close> (unsupported format); \<open>added\<close> is the running counter.
\<close>

fun add_files_loop :: "string list \<Rightarrow> nat \<Rightarrow> file_queue \<Rightarrow> nat \<times> file_queue" where
  "add_files_loop [] added q = (added, q)"
| "add_files_loop (path # rest) added q =
     (if is_full q then (added, q)
      else if \<not> is_valid_format path then add_files_loop rest added q
      else add_files_loop rest (added + 1) (q\<lparr>items := items q @ [new_item path]\<rparr>))"

definition add_files :: "string list \<Rightarrow> file_queue \<Rightarrow> nat \<times> file_queue" where
  "add_files file_paths q = add_files_loop file_paths 0 q"

text \<open>\<^verbatim>\<open>list.pop(i)\<close> and \<^verbatim>\<open>list.insert(i, x)\<close> for an index \<open>i \<ge> 0\<close>.\<close>

definition pop_at :: "nat \<Rightarrow> 'a list \<Rightarrow> 'a list" where
  "pop_at i xs = take i xs @ drop (Suc i) xs"

definition insert_at :: "nat \<Rightarrow> 'a \<Rightarrow> 'a list \<Rightarrow> 'a list" where
  "insert_at i x xs = take i xs @ x # drop i xs"

definition remove_file :: "int \<Rightarrow> file_queue \<Rightarrow> bool \<times> file_queue" where
  "remove_file index q =
     (if \<not> (0 \<le> index \<and> index < int (length (items q))) then (False, q)
      else
        let its = pop_at (nat index) (items q);
            ci = current_index q;
            ci' = (if ci \<ge> int (length its) then int (length its) - 1
                   else if index < ci then ci - 1
                   else ci)
        in (True, \<lparr>items = its, current_index = ci'\<rparr>))"

definition move_file :: "int \<Rightarrow> int \<Rightarrow> file_queue \<Rightarrow> bool \<times> file_queue" where
  "move_file from_index to_index q =
     (if \<not> (0 \<le> from_index \<and> from_index < int (length (items q))) then (False, q)
      else if \<not> (0 \<le> to_index \<and> to_index < int (length (items q))) then (False, q)
      else if from_index = to_index then (True, q)
      else
        let item = items q ! nat from_index;
            its = insert_at (nat to_index) item (pop_at (nat from_index) (items q));
            ci = current_index q;
            ci' = (if ci = from_index then to_index
                   else if from_index < ci \<and> ci \<le> to_index then ci - 1
                   else if to_index \<le> ci \<and> ci < from_index then ci + 1
                   else ci)
        in (True, \<lparr>items = its, current_index = ci'\<rparr>))"

text \<open>
  \<^verbatim>\<open>get_next_file\<close> reads \<^verbatim>\<open>self._items[self._current_index]\<close> after the increment. Python
  wraps a negative index around and raises \<^verbatim>\<open>IndexError\<close> beyond that; the cursor has
  already been advanced when it does.
\<close>

datatype py_error = IndexError | ValueError

definition py_getitem :: "'a list \<Rightarrow> int \<Rightarrow> py_error + 'a" where
  "py_getitem xs i =
     (if 0 \<le> i \<and> i < int (length xs) then Inr (xs ! nat i)
      else if - int (length xs) \<le> i \<and> i < 0 then Inr (xs ! nat (int (length xs) + i))
      else Inl IndexError)"

definition get_next_file :: "file_queue \<Rightarrow> (py_error + string option) \<times> file_queue" where
  "get_next_file q =
     (if has_next q then
        let q' = q\<lparr>current_index := current_index q + 1\<rparr>
        in (case py_getitem (items q') (current_index q') of
              Inl e \<Rightarrow> (Inl e, q')
            | Inr item \<Rightarrow> (Inr (Some (file_path item)), q'))
      else (Inr None, q))"

definition set_current_index :: "int \<Rightarrow> file_queue \<Rightarrow> bool \<times> file_queue" where
  "set_current_index index q =
     (if \<not> (0 \<le> index \<and> index < int (length (items q))) then (False, q)
      else (True, q\<lparr>current_index := index\<rparr>))"

text \<open>
  The loop of \<^verbatim>\<open>set_file_state\<close> over \<^verbatim>\<open>enumerate(self._items)\<close>: every item other than
  the one at \<open>index\<close> that is \<open>PROCESSING\<close> is set back to \<open>PENDING\<close>. \<open>i\<close> is the
  position of the head of the list.
\<close>

fun demote_others :: "int \<Rightarrow> nat \<Rightarrow> playlist_item list \<Rightarrow> playlist_item list" where
  "demote_others index i [] = []"
| "demote_others index i (item # rest) =
     (if int i \<noteq> index \<and> state item = PROCESSING then item\<lparr>state := PENDING\<rparr> else item)
       # demote_others index (Suc i) rest"

definition set_file_state :: "int \<Rightarrow> file_state \<Rightarrow> file_queue \<Rightarrow> bool \<times> file_queue" where
  "set_file_state index st q =
     (if \<not> (0 \<le> index \<and> index < int (length (items q))) then (False, q)
      else
        let its = (if st = PROCESSING then demote_others index 0 (items q) else items q)
        in (True, q\<lparr>items := its[nat index := (its ! nat index)\<lparr>state := st\<rparr>]\<rparr>))"

definition clear :: "file_queue \<Rightarrow> file_queue" where
  "clear q = \<lparr>items = [], current_index = - 1\<rparr>"

subsection \<open>Sequences of queue operations\<close>

datatype queue_op =
    AddFiles "string list"
  | RemoveFile int
  | MoveFile int int
  | GetNextFile
  | SetCurrentIndex int
  | SetFileState int file_state
  | Clear

text \<open>The queue after one call; the call's return value (or exception) is dropped.\<close>

fun apply_op :: "queue_op \<Rightarrow> file_queue \<Rightarrow> file_queue" where
  "apply_op (AddFiles file_paths) q = snd (add_files file_paths q)"
| "apply_op (RemoveFile index) q = snd (remove_file index q)"
| "apply_op (MoveFile from_index to_index) q = snd (move_file from_index to_index q)"
| "apply_op GetNextFile q = snd (get_next_file q)"
| "apply_op (SetCurrentIndex index) q = snd (set_current_index index q)"
| "apply_op (SetFileState index st) q = snd (set_file_state index st q)"
| "apply_op Clear q = clear q"

fun run_ops :: "queue_op list \<Rightarrow> file_queue \<Rightarrow> file_queue" where
  "run_ops [] q = q"
| "run_ops (opn # rest) q = run_ops rest (apply_op opn q)"

text \<open>The number of items whose state is \<open>PROCESSING\<close>.\<close>

definition processing_count :: "file_queue \<Rightarrow> nat" where
  "processing_count q = length (filter (\<lambda>item. state item = PROCESSING) (items q))"

text \<open>The bounds on the length and on the cursor.\<close>

definition queue_bounds :: "file_queue \<Rightarrow> bool" where
  "queue_bounds q =
     (length (items q) \<le> MAX_FILES \<and> - 1 \<le> current_index q
      \<and> current_index q \<le> int (length (items q)) - 1)"

section \<open>SubtitleManager (src/services/subtitle\_manager.py)\<close>

text \<open>
  The loop of \<^verbatim>\<open>get_current_index\<close> over \<^verbatim>\<open>enumerate(self._segments)\<close>: it returns from
  the first segment with \<^verbatim>\<open>start_time <= current_time < end_time\<close>; \<open>None\<close> stands for
  a loop that ran to its end. \<open>i\<close> is the position of the head of the list.
\<close>

fun scan_segments :: "translation_segment list \<Rightarrow> nat \<Rightarrow> real \<Rightarrow> int option" where
  "scan_segments [] i current_time = None"
| "scan_segments (segment # rest) i current_time =
     (if start_time segment \<le> current_time \<and> current_time < end_time segment then Some (int i)
      else scan_segments rest (Suc i) current_time)"

definition get_current_index :: "subtitle_manager \<Rightarrow> real \<Rightarrow> int" where
  "get_current_index segments current_time =
     (if segments = [] then - 1
      else case scan_segments segments 0 current_time of
             Some i \<Rightarrow> i
           | None \<Rightarrow>
               (if current_time < start_time (hd segments) then - 1
                else if current_time \<ge> end_time (last segments) then - 1
                else - 1))"

text \<open>A segment is active at \<open>t\<close> when \<open>t\<close> lies in its half-open interval.\<close>

definition active :: "translation_segment \<Rightarrow> real \<Rightarrow> bool" where
  "active segment t = (start_time segment \<le> t \<and> t < end_time segment)"

text \<open>
  The expected shape of a segment list: ordered by start time, and no segment starts
  before an earlier one has ended.
\<close>

fun ordered_non_overlapping :: "translation_segment list \<Rightarrow> bool" where
  "ordered_non_overlapping [] = True"
| "ordered_non_overlapping (s # rest) =
     (list_all (\<lambda>r. start_time s \<le> start_time r \<and> end_time s \<le> start_time r) rest
      \<and> ordered_non_overlapping rest)"

text \<open>A segment of the scenarios, given by its start, its end and its text.\<close>

definition caption :: "real \<Rightarrow> real \<Rightarrow> string \<Rightarrow> translation_segment" where
  "caption a b txt =
     \<lparr>start_time = a, end_time = b, original_text = txt, translated_text = txt,
      source_language = ''zh'', target_language = ''zh''\<rparr>"

section \<open>Translator (src/services/translator.py)\<close>

text \<open>
  The translator calls into the Python library for regular expressions and string
  functions, and holds its prompt texts and the names in \<^verbatim>\<open>LANG_NAMES\<close> in Chinese.
  These are taken as parameters: \<open>strip\<close> is \<^verbatim>\<open>str.strip\<close>, \<open>splitlines\<close> is
  \<^verbatim>\<open>str.splitlines\<close>, \<open>re_findall\<close> is \<^verbatim>\<open>re.findall\<close> with the pattern of the first
  pass of \<^verbatim>\<open>_parse_numbered_text\<close> (pairs of the two groups), \<open>re_match\<close> is
  \<^verbatim>\<open>re.match\<close> with the pattern of its second pass, \<open>py_int\<close> is \<^verbatim>\<open>int\<close> on a group
  that matched \<^verbatim>\<open>\d+\<close>, with \<open>None\<close> where \<^verbatim>\<open>int\<close> raises \<^verbatim>\<open>ValueError\<close> (CPython refuses
  to convert a string of more than 4300 digits), and \<open>prompt_template\<close> is the f-string
  of the prompt, given the two language names and the numbered lines.
\<close>

record pylib =
  strip :: "string \<Rightarrow> string"
  splitlines :: "string \<Rightarrow> string list"
  re_findall :: "string \<Rightarrow> (string \<times> string) list"
  re_match :: "string \<Rightarrow> (string \<times> string) option"
  py_int :: "string \<Rightarrow> int option"
  LANG_NAMES :: "string \<Rightarrow> string option"
  prompt_template :: "string \<Rightarrow> string \<Rightarrow> string \<Rightarrow> string"

text \<open>
  The service behind \<^verbatim>\<open>urllib.request.urlopen\<close>: what request number \<open>n\<close> with a given
  prompt does. \<open>Inr\<close> is the field \<^verbatim>\<open>response\<close> of the decoded answer; \<open>Inl\<close> is the text
  of any exception raised inside the \<^verbatim>\<open>try\<close> block. The number of requests made so far
  is the state that the translator threads through its calls.
\<close>

type_synonym ollama_service = "nat \<Rightarrow> string \<Rightarrow> string + string"

datatype translator_error = TranslatorError string

definition max_retries :: nat where
  "max_retries = 3"

text \<open>
  The retry loop of \<^verbatim>\<open>_call_ollama\<close>, from attempt number \<open>attempt\<close> on: a request that
  succeeds returns the stripped answer; one that fails is retried while
  \<^verbatim>\<open>attempt < max_retries - 1\<close> and raises \<^verbatim>\<open>TranslatorError\<close> otherwise. Every caller
  uses the default \<^verbatim>\<open>max_retries = 3\<close>, for which the loop is always left by a return or
  a raise. The waiting times between attempts are left out.
\<close>

function ollama_attempts ::
  "pylib \<Rightarrow> ollama_service \<Rightarrow> string \<Rightarrow> nat \<Rightarrow> nat \<Rightarrow> (translator_error + string) \<times> nat" where
  "ollama_attempts L sv prompt attempt n =
     (case sv n prompt of
        Inr response \<Rightarrow> (Inr (strip L response), Suc n)
      | Inl e \<Rightarrow>
          (if attempt < max_retries - 1 then ollama_attempts L sv prompt (Suc attempt) (Suc n)
           else (Inl (TranslatorError e), Suc n)))"
  by pat_completeness auto
termination
  by (relation "measure (\<lambda>(L, sv, prompt, attempt, n). max_retries - 1 - attempt)") auto

declare ollama_attempts.simps [simp del]

definition call_ollama ::
  "pylib \<Rightarrow> ollama_service \<Rightarrow> string \<Rightarrow> nat \<Rightarrow> (translator_error + string) \<times> nat" where
  "call_ollama L sv prompt n = ollama_attempts L sv prompt 0 n"

definition should_translate :: "string \<Rightarrow> string \<Rightarrow> bool" where
  "should_translate source_lang target_lang = (source_lang \<noteq> target_lang)"

text \<open>
  A Python dictionary with integer keys, as the list of its entries in insertion order;
  \<open>dict_set\<close> is \<^verbatim>\<open>d[k] = v\<close>, \<open>map_of\<close> the lookup and \<open>length\<close> is \<^verbatim>\<open>len\<close>.
\<close>

type_synonym py_dict = "(int \<times> string) list"

fun dict_set :: "int \<Rightarrow> string \<Rightarrow> py_dict \<Rightarrow> py_dict" where
  "dict_set k v [] = [(k, v)]"
| "dict_set k v ((k', v') # rest) =
     (if k' = k then (k, v) # rest else (k', v') # dict_set k v rest)"

text \<open>
  The two passes of \<^verbatim>\<open>_parse_numbered_text\<close>. The first stores every match of the
  first pattern, and skips a match whose number \<^verbatim>\<open>int\<close> refuses (the handler
  \<^verbatim>\<open>except ValueError: pass\<close>). The second runs when fewer than \<open>expected\<close> keys came out
  of the first: each line that matches the second pattern is stored unless its number
  is already a key; here \<^verbatim>\<open>int\<close> is called outside any handler, so its \<^verbatim>\<open>ValueError\<close>
  leaves the function.
\<close>

fun store_matches :: "pylib \<Rightarrow> (string \<times> string) list \<Rightarrow> py_dict \<Rightarrow> py_dict" where
  "store_matches L [] result = result"
| "store_matches L ((n, content) # rest) result =
     (case py_int L n of
        Some k \<Rightarrow> store_matches L rest (dict_set k (strip L content) result)
      | None \<Rightarrow> store_matches L rest result)"

fun store_lines :: "pylib \<Rightarrow> string list \<Rightarrow> py_dict \<Rightarrow> py_error + py_dict" where
  "store_lines L [] result = Inr result"
| "store_lines L (line # rest) result =
     (case re_match L line of
        Some (g1, g2) \<Rightarrow>
          (case py_int L g1 of
             None \<Rightarrow> Inl ValueError
           | Some idx \<Rightarrow>
               if map_of result idx = None
               then store_lines L rest (dict_set idx (strip L g2) result)
               else store_lines L rest result)
      | None \<Rightarrow> store_lines L rest result)"

definition parse_numbered_text :: "pylib \<Rightarrow> string \<Rightarrow> nat \<Rightarrow> py_error + py_dict" where
  "parse_numbered_text L text expected =
     (let result = store_matches L (re_findall L text) []
      in if length result < expected then store_lines L (splitlines L text) result
         else Inr result)"

text \<open>The prompt: \<^verbatim>\<open>f"[{i+1}] {text}"\<close> for every segment whose stripped text is not empty, joined by newlines.\<close>

fun show_nat :: "nat \<Rightarrow> string" where
  "show_nat n =
     (if n < 10 then [char_of (48 + n)] else show_nat (n div 10) @ [char_of (48 + n mod 10)])"

declare show_nat.simps [simp del]

fun numbered_lines :: "pylib \<Rightarrow> nat \<Rightarrow> transcript_segment list \<Rightarrow> string list" where
  "numbered_lines L i [] = []"
| "numbered_lines L i (seg # rest) =
     (let text = strip L (ts_text seg)
      in if text \<noteq> [] then (''['' @ show_nat (i + 1) @ ''] '' @ text) # numbered_lines L (Suc i) rest
         else numbered_lines L (Suc i) rest)"

fun join_lines :: "string list \<Rightarrow> string" where
  "join_lines [] = []"
| "join_lines [l] = l"
| "join_lines (l # rest) = l @ [CHR 0x0A] @ join_lines rest"

definition batch_prompt ::
  "pylib \<Rightarrow> transcript_segment list \<Rightarrow> string \<Rightarrow> string \<Rightarrow> string" where
  "batch_prompt L segments source_lang target_lang =
     (let combined_text = join_lines (numbered_lines L 0 segments);
          source_name = (case LANG_NAMES L source_lang of Some nm \<Rightarrow> nm | None \<Rightarrow> source_lang);
          target_name = (case LANG_NAMES L target_lang of Some nm \<Rightarrow> nm | None \<Rightarrow> target_lang)
      in prompt_template L source_name target_name combined_text)"

text \<open>
  The result loop of \<^verbatim>\<open>_translate_single_batch\<close>: \<^verbatim>\<open>parsed.get(i + 1, seg.text)\<close> for the
  segment at position \<open>i\<close>.
\<close>

fun build_results ::
  "py_dict \<Rightarrow> string \<Rightarrow> string \<Rightarrow> nat \<Rightarrow> transcript_segment list \<Rightarrow> translation_segment list" where
  "build_results parsed source_lang target_lang i [] = []"
| "build_results parsed source_lang target_lang i (seg # rest) =
     \<lparr>start_time = ts_start_time seg, end_time = ts_end_time seg, original_text = ts_text seg,
      translated_text = (case map_of parsed (int i + 1) of Some t \<Rightarrow> t | None \<Rightarrow> ts_text seg),
      source_language = source_lang, target_language = target_lang\<rparr>
       # build_results parsed source_lang target_lang (Suc i) rest"

text \<open>
  The \<^verbatim>\<open>try\<close> block of \<^verbatim>\<open>_translate_single_batch\<close>: the answer of the call is parsed.
  Its only handler is for \<^verbatim>\<open>TranslatorError\<close>, which leaves \<open>parsed\<close> empty; a
  \<^verbatim>\<open>ValueError\<close> of the parser passes through.
\<close>

definition parsed_reply ::
  "pylib \<Rightarrow> translator_error + string \<Rightarrow> nat \<Rightarrow> py_error + py_dict" where
  "parsed_reply L answer expected =
     (case answer of
        Inr reply \<Rightarrow> parse_numbered_text L reply expected
      | Inl e \<Rightarrow> Inr [])"

text \<open>
  \<^verbatim>\<open>_translate_single_batch\<close>: the results, or the exception that left the \<^verbatim>\<open>try\<close> block.
  The parameter \<open>offset\<close> is not used by the body.
\<close>

definition translate_single_batch ::
  "pylib \<Rightarrow> ollama_service \<Rightarrow> transcript_segment list \<Rightarrow> string \<Rightarrow> string \<Rightarrow> nat \<Rightarrow> nat
   \<Rightarrow> (py_error + translation_segment list) \<times> nat" where
  "translate_single_batch L sv segments source_lang target_lang offset n =
     (let prompt = batch_prompt L segments source_lang target_lang;
          (answer, n') = call_ollama L sv prompt n
      in case parsed_reply L answer (length segments) of
           Inl e \<Rightarrow> (Inl e, n')
         | Inr parsed \<Rightarrow> (Inr (build_results parsed source_lang target_lang 0 segments), n'))"

text \<open>
  \<^verbatim>\<open>translate_batch\<close> and its loop \<^verbatim>\<open>for batch_start in range(0, len(segments), BATCH_SIZE)\<close>,
  which extends \<open>all_results\<close> by the results of each slice; an exception of a slice
  ends the loop and leaves \<^verbatim>\<open>translate_batch\<close>.
\<close>

definition BATCH_SIZE :: nat where
  "BATCH_SIZE = 10"

function translate_chunks ::
  "pylib \<Rightarrow> ollama_service \<Rightarrow> transcript_segment list \<Rightarrow> string \<Rightarrow> string \<Rightarrow> nat
   \<Rightarrow> translation_segment list \<Rightarrow> nat \<Rightarrow> (py_error + translation_segment list) \<times> nat" where
  "translate_chunks L sv segments source_lang target_lang batch_start all_results n =
     (if batch_start < length segments then
        let batch_end = min (batch_start + BATCH_SIZE) (length segments);
            batch_segments = take (batch_end - batch_start) (drop batch_start segments)
        in case translate_single_batch L sv batch_segments source_lang target_lang batch_start n of
             (Inl e, n') \<Rightarrow> (Inl e, n')
           | (Inr batch_results, n') \<Rightarrow>
               translate_chunks L sv segments source_lang target_lang (batch_start + BATCH_SIZE)
                 (all_results @ batch_results) n'
      else (Inr all_results, n))"
  by pat_completeness auto
termination
  by (relation "measure (\<lambda>(L, sv, segments, source_lang, target_lang, batch_start, all_results, n).
        length segments - batch_start)") (auto simp: BATCH_SIZE_def)

declare translate_chunks.simps [simp del]

definition translate_batch ::
  "pylib \<Rightarrow> ollama_service \<Rightarrow> transcript_segment list \<Rightarrow> string \<Rightarrow> string \<Rightarrow> nat
   \<Rightarrow> (py_error + translation_segment list) \<times> nat" where
  "translate_batch L sv segments source_lang target_lang n =
     (if segments = [] then (Inr [], n)
      else if \<not> should_translate source_lang target_lang then
        (Inr (map (\<lambda>s. \<lparr>start_time = ts_start_time s, end_time = ts_end_time s,
                         original_text = ts_text s, translated_text = ts_text s,
                         source_language = source_lang, target_language = target_lang\<rparr>)
                segments), n)
      else translate_chunks L sv segments source_lang target_lang 0 [] n)"

text \<open>
  Vocabulary of the properties: the output that repeats the original text of a segment,
  an output that carries the times and the text of its input, the consecutive chunks
  of a list, and the translation of a list of chunks one after the other.
\<close>

definition echo :: "string \<Rightarrow> string \<Rightarrow> transcript_segment \<Rightarrow> translation_segment" where
  "echo source_lang target_lang s =
     \<lparr>start_time = ts_start_time s, end_time = ts_end_time s, original_text = ts_text s,
      translated_text = ts_text s, source_language = source_lang, target_language = target_lang\<rparr>"

definition carries :: "transcript_segment \<Rightarrow> translation_segment \<Rightarrow> bool" where
  "carries s out =
     (start_time out = ts_start_time s \<and> end_time out = ts_end_time s
      \<and> original_text out = ts_text s)"

function chunks_of :: "nat \<Rightarrow> 'a list \<Rightarrow> 'a list list" where
  "chunks_of k xs = (if k = 0 \<or> xs = [] then [] else take k xs # chunks_of k (drop k xs))"
  by pat_completeness auto
termination
  by (relation "measure (\<lambda>(k, xs). length xs)") auto

declare chunks_of.simps [simp del]

fun run_chunks ::
  "pylib \<Rightarrow> ollama_service \<Rightarrow> string \<Rightarrow> string \<Rightarrow> transcript_segment list list \<Rightarrow> nat
   \<Rightarrow> (py_error + translation_segment list) \<times> nat" where
  "run_chunks L sv source_lang target_lang [] n = (Inr [], n)"
| "run_chunks L sv source_lang target_lang (chunk # rest) n =
     (case translate_single_batch L sv chunk source_lang target_lang 0 n of
        (Inl e, n') \<Rightarrow> (Inl e, n')
      | (Inr r, n') \<Rightarrow>
          (case run_chunks L sv source_lang target_lang rest n' of
             (Inl e, n'') \<Rightarrow> (Inl e, n'')
           | (Inr rs, n'') \<Rightarrow> (Inr (r @ rs), n'')))"

text \<open>Test data: a library whose patterns never match, and a segment with a given text.\<close>

definition test_lib :: pylib where
  "test_lib = \<lparr>strip = (\<lambda>s. s), splitlines = (\<lambda>s. [s]), re_findall = (\<lambda>s. []),
     re_match = (\<lambda>s. None), py_int = (\<lambda>s. Some 0), LANG_NAMES = (\<lambda>l. None),
     prompt_template = (\<lambda>a b c. a @ b @ c)\<rparr>"

definition line :: "string \<Rightarrow> transcript_segment" where
  "line txt = \<lparr>ts_start_time = 0, ts_end_time = 1, ts_text = txt, ts_language = ''ja''\<rparr>"

text \<open>A service that refuses every request.\<close>

definition offline :: ollama_service where
  "offline = (\<lambda>n prompt. Inl ''connection refused'')"

text \<open>
  A library for answers of the one shape \<^verbatim>\<open>[digits] words\<close> on a single line without
  surrounding blanks, where it does what Python does: both patterns match the whole
  answer with the digits and the words as groups, \<^verbatim>\<open>strip\<close> and \<^verbatim>\<open>splitlines\<close> change
  nothing, and \<^verbatim>\<open>int\<close> reads decimal digits and refuses more than 4300 of them.
\<close>

definition is_digit :: "char \<Rightarrow> bool" where
  "is_digit c = (48 \<le> (of_char c :: nat) \<and> (of_char c :: nat) \<le> 57)"

definition bracket_number :: "string \<Rightarrow> (string \<times> string) option" where
  "bracket_number s =
     (case s of
        [] \<Rightarrow> None
      | c # rest \<Rightarrow>
          (let digits = takeWhile is_digit rest;
               after = drop (length digits) rest
           in if c = CHR ''['' \<and> digits \<noteq> [] \<and> take 1 after = '']''
                 \<and> dropWhile (\<lambda>x. x = CHR '' '') (drop 1 after) \<noteq> []
              then Some (digits, dropWhile (\<lambda>x. x = CHR '' '') (drop 1 after))
              else None))"

definition limited_int :: "string \<Rightarrow> int option" where
  "limited_int s =
     (if length s > 4300 then None
      else Some (foldl (\<lambda>v c. 10 * v + (int (of_char c) - 48)) 0 s))"

definition one_number_lib :: pylib where
  "one_number_lib =
     \<lparr>strip = (\<lambda>s. s), splitlines = (\<lambda>s. [s]),
      re_findall = (\<lambda>s. case bracket_number s of Some g \<Rightarrow> [g] | None \<Rightarrow> []),
      re_match = bracket_number, py_int = limited_int, LANG_NAMES = (\<lambda>l. None),
      prompt_template = (\<lambda>a b c. a @ b @ c)\<rparr>"

text \<open>
  Two services: one answers with a small number, one with a number of 4301 digits
  (\<open>long_reply k\<close> is the answer with \<open>k\<close> digits).
\<close>

definition short_number :: ollama_service where
  "short_number = (\<lambda>n prompt. Inr ''[1] x'')"

definition long_reply :: "nat \<Rightarrow> string" where
  "long_reply k = ''['' @ replicate k CHR ''9'' @ ''] x''"

definition long_number :: ollama_service where
  "long_number = (\<lambda>n prompt. Inr (long_reply 4301))"

section \<open>MainWindow (src/ui/main\_window.py) with the FileQueueWidget (src/ui/file\_queue.py)\<close>

text \<open>
  The state of the main window that its handlers read and write: the queue of the
  \<^verbatim>\<open>FileQueueWidget\<close>, the dictionary \<^verbatim>\<open>_subtitle_cache\<close> from file paths to subtitle
  managers and the flag \<^verbatim>\<open>_auto_processing\<close>. Three more fields record what the
  handlers do to the outside: \<open>started\<close> lists, in order, the file paths for which a
  \<^verbatim>\<open>ProcessingWorker\<close> was created and started (each start is one run of loading,
  recognition and translation); \<open>shown\<close> and \<open>subtitles\<close> are the visible frame and the
  subtitles handed to the subtitle view; \<open>error_boxes\<close> lists the messages of the
  \<^verbatim>\<open>QMessageBox.critical\<close> boxes. The signals of the widgets are connected in the
  thread of the window, so a handler runs inside \<^verbatim>\<open>emit\<close>; the signals of a worker
  arrive as events of their own.
\<close>

datatype view = Placeholder | Progress | Result

record main_window =
  file_queue :: file_queue
  subtitle_cache :: "string \<rightharpoonup> subtitle_manager"
  auto_processing :: bool
  started :: "string list"
  shown :: view
  subtitles :: "subtitle_manager option"
  error_boxes :: "string list"

definition new_main_window :: main_window where
  "new_main_window =
     \<lparr>file_queue = new_queue, subtitle_cache = Map.empty, auto_processing = False,
      started = [], shown = Placeholder, subtitles = None, error_boxes = []\<rparr>"

text \<open>
  \<^verbatim>\<open>_start_processing\<close>: stops the player and a running worker, shows the progress bar,
  sets the item under the cursor to \<open>PROCESSING\<close> and starts a new worker for the path.
\<close>

definition start_processing :: "string \<Rightarrow> main_window \<Rightarrow> main_window" where
  "start_processing path w =
     (let current_idx = current_index (file_queue w);
          q = snd (set_file_state current_idx PROCESSING (file_queue w))
      in w\<lparr>file_queue := q, shown := Progress, started := started w @ [path]\<rparr>)"

definition load_from_cache :: "string \<Rightarrow> main_window \<Rightarrow> main_window" where
  "load_from_cache path w = w\<lparr>subtitles := subtitle_cache w path, shown := Result\<rparr>"

definition on_file_selected :: "string \<Rightarrow> main_window \<Rightarrow> main_window" where
  "on_file_selected path w =
     (if subtitle_cache w path \<noteq> None then load_from_cache path w
      else start_processing path w)"

text \<open>
  The loop shared by \<^verbatim>\<open>_start_auto_processing\<close> and \<^verbatim>\<open>_process_next_unprocessed\<close>: the
  first item whose path is not a key of the cache, with its position.
\<close>

fun first_unprocessed ::
  "(string \<rightharpoonup> subtitle_manager) \<Rightarrow> nat \<Rightarrow> playlist_item list \<Rightarrow> (nat \<times> string) option" where
  "first_unprocessed cache i [] = None"
| "first_unprocessed cache i (item # rest) =
     (if cache (file_path item) = None then Some (i, file_path item)
      else first_unprocessed cache (Suc i) rest)"

definition start_auto_processing :: "main_window \<Rightarrow> main_window" where
  "start_auto_processing w =
     (case first_unprocessed (subtitle_cache w) 0 (items (file_queue w)) of
        Some (i, path) \<Rightarrow>
          start_processing path
            (w\<lparr>auto_processing := True,
               file_queue := snd (set_current_index (int i) (file_queue w))\<rparr>)
      | None \<Rightarrow> w\<lparr>auto_processing := False\<rparr>)"

definition process_next_unprocessed :: "main_window \<Rightarrow> main_window" where
  "process_next_unprocessed w =
     (case first_unprocessed (subtitle_cache w) 0 (items (file_queue w)) of
        Some (i, path) \<Rightarrow>
          start_processing path
            (w\<lparr>file_queue := snd (set_current_index (int i) (file_queue w))\<rparr>)
      | None \<Rightarrow> w\<lparr>auto_processing := False\<rparr>)"

definition on_queue_changed :: "string list \<Rightarrow> main_window \<Rightarrow> main_window" where
  "on_queue_changed file_paths w =
     (if \<not> auto_processing w \<and> file_paths \<noteq> [] then start_auto_processing w else w)"

text \<open>
  \<^verbatim>\<open>_on_complete\<close> and \<^verbatim>\<open>_on_error\<close>, the handlers of the two final signals of a worker.
  The first stores the manager under the current file (when there is one), shows it
  and sets the item under the cursor to \<open>READY\<close>; the second shows the placeholder and
  an error box. In auto mode both go on to the first file without a cache entry.
\<close>

definition on_complete :: "subtitle_manager \<Rightarrow> main_window \<Rightarrow> main_window" where
  "on_complete manager w =
     (let cache = (case current_file (file_queue w) of
                     Some path \<Rightarrow>
                       (if path \<noteq> [] then (subtitle_cache w)(path \<mapsto> manager)
                        else subtitle_cache w)
                   | None \<Rightarrow> subtitle_cache w);
          current_idx = current_index (file_queue w);
          q = snd (set_file_state current_idx READY (file_queue w));
          w' = w\<lparr>subtitle_cache := cache, subtitles := Some manager, shown := Result,
                 file_queue := q\<rparr>
      in if auto_processing w' then process_next_unprocessed w' else w')"

definition on_error :: "string \<Rightarrow> main_window \<Rightarrow> main_window" where
  "on_error msg w =
     (let w' = w\<lparr>shown := Placeholder, error_boxes := error_boxes w @ [msg]\<rparr>
      in if auto_processing w' then process_next_unprocessed w' else w')"

text \<open>
  \<^verbatim>\<open>_on_playback_finished\<close>: the item under the cursor becomes \<open>COMPLETED\<close>, the cursor
  moves to the next file, and that file is handed to \<^verbatim>\<open>_start_processing\<close>.
\<close>

definition on_playback_finished :: "main_window \<Rightarrow> main_window" where
  "on_playback_finished w =
     (let current_idx = current_index (file_queue w);
          q = snd (set_file_state current_idx COMPLETED (file_queue w));
          (next_file, q') = get_next_file q;
          w' = w\<lparr>file_queue := q'\<rparr>
      in case next_file of
           Inr (Some path) \<Rightarrow> (if path \<noteq> [] then start_processing path w' else w')
         | Inr None \<Rightarrow> w'
         | Inl e \<Rightarrow> w')"

text \<open>
  \<^verbatim>\<open>FileQueueWidget.add_files\<close> and \<^verbatim>\<open>FileQueueWidget._on_item_clicked\<close> with the signals
  they emit. After \<^verbatim>\<open>set_current_index(0)\<close> on a queue that has just received its first
  files the current file exists.
\<close>

definition widget_add_files :: "string list \<Rightarrow> main_window \<Rightarrow> main_window" where
  "widget_add_files file_paths w =
     (let (added, q) = add_files file_paths (file_queue w);
          w1 = w\<lparr>file_queue := q\<rparr>
      in if added > 0 then
           let w2 = on_queue_changed (map file_path (items (file_queue w1))) w1
           in if count (file_queue w2) = added then
                let w3 = w2\<lparr>file_queue := snd (set_current_index 0 (file_queue w2))\<rparr>
                in case current_file (file_queue w3) of
                     Some path \<Rightarrow> on_file_selected path w3
                   | None \<Rightarrow> w3
              else w2
         else w1)"

definition widget_item_clicked :: "int \<Rightarrow> main_window \<Rightarrow> main_window" where
  "widget_item_clicked index w =
     (if index \<noteq> current_index (file_queue w) then
        let (ok, q) = set_current_index index (file_queue w);
            w1 = w\<lparr>file_queue := q\<rparr>
        in if ok then
             (case current_file (file_queue w1) of
                Some path \<Rightarrow> on_file_selected path w1
              | None \<Rightarrow> w1)
           else w1
      else w)"

text \<open>What can happen to the window, and the window after a list of such events.\<close>

datatype event =
    AddClicked "string list"
  | ItemClicked int
  | WorkerComplete subtitle_manager
  | WorkerError string
  | PlaybackFinished

fun handle :: "event \<Rightarrow> main_window \<Rightarrow> main_window" where
  "handle (AddClicked file_paths) w = widget_add_files file_paths w"
| "handle (ItemClicked index) w = widget_item_clicked index w"
| "handle (WorkerComplete manager) w = on_complete manager w"
| "handle (WorkerError msg) w = on_error msg w"
| "handle PlaybackFinished w = on_playback_finished w"

fun run_events :: "event list \<Rightarrow> main_window \<Rightarrow> main_window" where
  "run_events [] w = w"
| "run_events (ev # rest) w = run_events rest (handle ev w)"

text \<open>
  A session: two files are added and both are processed to the end (auto mode), then
  the user selects the first one again.
\<close>

definition both_processed :: "event list" where
  "both_processed =
     [AddClicked [''a.wav'', ''b.wav''], WorkerComplete [caption 0 2 ''a''],
      WorkerComplete [caption 0 3 ''b''], ItemClicked 0]"

section \<open>Properties of the queue\<close>

subsection \<open>List surgery: pop and insert\<close>

lemma length_pop_at: "i < length xs \<Longrightarrow> length (pop_at i xs) = length xs - 1"
  by (simp add: pop_at_def)

lemma length_insert_at: "length (insert_at i x xs) = Suc (length xs)"
  by (simp add: insert_at_def)

lemma length_demote_others: "length (demote_others index i its) = length its"
  by (induction its arbitrary: i) auto

lemma nth_pop_at:
  "k < length xs - 1 \<Longrightarrow> i < length xs \<Longrightarrow> pop_at i xs ! k = (if k < i then xs ! k else xs ! Suc k)"
  by (auto simp: pop_at_def nth_append min_def)

lemma nth_insert_at:
  "i \<le> length xs \<Longrightarrow> k \<le> length xs \<Longrightarrow>
   insert_at i x xs ! k = (if k < i then xs ! k else if k = i then x else xs ! (k - 1))"
proof -
  assume i: "i \<le> length xs" and k: "k \<le> length xs"
  have len: "min (length xs) i = i" using i by simp
  show ?thesis
  proof (cases "k < i")
    case True
    then show ?thesis using i by (simp add: insert_at_def nth_append len)
  next
    case False
    show ?thesis
    proof (cases "k = i")
      case True
      then show ?thesis by (simp add: insert_at_def nth_append len)
    next
      case ne: False
      with False obtain d where d: "k = Suc (i + d)" using less_imp_Suc_add [of i k] by auto
      then show ?thesis using i k by (simp add: insert_at_def nth_append len)
    qed
  qed
qed

lemma pop_at_insert_at: "i \<le> length xs \<Longrightarrow> pop_at i (insert_at i x xs) = xs"
  by (simp add: pop_at_def insert_at_def min_def)

lemma filter_take_drop:
  "length (filter P (take i xs)) + length (filter P (drop i xs)) = length (filter P xs)"
  by (metis append_take_drop_id filter_append length_append)

lemma filter_pop_at_le: "length (filter P (pop_at i xs)) \<le> length (filter P xs)"
proof -
  have "length (filter P (take i xs)) + length (filter P (drop (Suc i) xs))
        \<le> length (filter P (take i xs)) + length (filter P (drop i xs))"
    by (cases "i < length xs") (simp_all add: Cons_nth_drop_Suc [symmetric])
  then show ?thesis by (simp add: pop_at_def filter_take_drop)
qed

lemma filter_insert_at:
  "length (filter P (insert_at i x xs)) = (if P x then 1 else 0) + length (filter P xs)"
  using filter_take_drop [of P i xs] by (simp add: insert_at_def)

lemma filter_pop_at_eq:
  "i < length xs \<Longrightarrow>
   length (filter P xs) = (if P (xs ! i) then 1 else 0) + length (filter P (pop_at i xs))"
proof -
  assume "i < length xs"
  then have "xs = take i xs @ xs ! i # drop (Suc i) xs" by (rule id_take_nth_drop)
  then have "length (filter P xs) = length (filter P (take i xs @ xs ! i # drop (Suc i) xs))"
    by simp
  then show ?thesis by (simp add: pop_at_def)
qed

lemma filter_update_le:
  "\<not> P x \<Longrightarrow> length (filter P (xs[n := x])) \<le> length (filter P xs)"
  by (induction xs arbitrary: n) (auto split: nat.splits)

lemma filter_update_single:
  "(\<And>j. j < length xs \<Longrightarrow> j \<noteq> n \<Longrightarrow> \<not> P (xs ! j)) \<Longrightarrow> length (filter P (xs[n := x])) \<le> 1"
proof (induction xs arbitrary: n)
  case Nil
  then show ?case by simp
next
  case (Cons y ys)
  show ?case
  proof (cases n)
    case 0
    have "\<not> P (ys ! j)" if "j < length ys" for j
      using Cons.prems [of "Suc j"] that 0 by simp
    then have "filter P ys = []" by (auto simp: filter_empty_conv in_set_conv_nth)
    with 0 show ?thesis by simp
  next
    case (Suc m)
    have "\<not> P y" using Cons.prems [of 0] Suc by simp
    moreover have "length (filter P (ys[m := x])) \<le> 1"
    proof (rule Cons.IH)
      fix j assume "j < length ys" "j \<noteq> m"
      then show "\<not> P (ys ! j)" using Cons.prems [of "Suc j"] Suc by simp
    qed
    ultimately show ?thesis using Suc by simp
  qed
qed

lemma nth_demote_others:
  "j < length its \<Longrightarrow>
   demote_others index i its ! j =
     (if int (i + j) \<noteq> index \<and> state (its ! j) = PROCESSING then (its ! j)\<lparr>state := PENDING\<rparr>
      else its ! j)"
proof (induction its arbitrary: i j)
  case Nil
  then show ?case by simp
next
  case (Cons a its)
  then show ?case by (cases j) auto
qed

lemma add_files_loop_processing:
  "processing_count (snd (add_files_loop ps a q)) = processing_count q"
  by (induction ps arbitrary: a q) (simp_all add: processing_count_def new_item_def)

lemma remove_file_processing:
  "processing_count (snd (remove_file index q)) \<le> processing_count q"
  by (simp add: remove_file_def processing_count_def Let_def filter_pop_at_le)

lemma move_file_processing:
  "processing_count (snd (move_file f t q)) = processing_count q"
proof (cases "in_range f q \<and> in_range t q \<and> f \<noteq> t")
  case True
  then have "nat f < length (items q)" by (auto simp: in_range_def)
  from filter_pop_at_eq [OF this, of "\<lambda>item. state item = PROCESSING"] True
  show ?thesis
    by (simp add: move_file_def processing_count_def Let_def in_range_def filter_insert_at)
next
  case False
  then show ?thesis by (auto simp: move_file_def in_range_def)
qed

lemma set_file_state_processing:
  "processing_count q \<le> 1 \<Longrightarrow> processing_count (snd (set_file_state index st q)) \<le> 1"
proof (cases "in_range index q")
  case False
  assume "processing_count q \<le> 1"
  with False show ?thesis by (simp add: set_file_state_def in_range_def)
next
  case True
  assume le: "processing_count q \<le> 1"
  show ?thesis
  proof (cases "st = PROCESSING")
    case st: True
    let ?its = "demote_others index 0 (items q)"
    have "length (filter (\<lambda>item. state item = PROCESSING)
            (?its[nat index := (?its ! nat index)\<lparr>state := PROCESSING\<rparr>])) \<le> 1"
    proof (rule filter_update_single)
      fix j assume "j < length ?its" "j \<noteq> nat index"
      then show "state (?its ! j) \<noteq> PROCESSING"
        using True by (auto simp: length_demote_others nth_demote_others in_range_def)
    qed
    with True st show ?thesis
      by (simp add: set_file_state_def processing_count_def in_range_def Let_def)
  next
    case st: False
    have "length (filter (\<lambda>item. state item = PROCESSING)
            ((items q)[nat index := (items q ! nat index)\<lparr>state := st\<rparr>]))
          \<le> length (filter (\<lambda>item. state item = PROCESSING) (items q))"
      by (rule filter_update_le) (simp add: st)
    with True st le show ?thesis
      by (simp add: set_file_state_def processing_count_def in_range_def Let_def)
  qed
qed

lemma get_next_file_processing: "processing_count (snd (get_next_file q)) = processing_count q"
  by (simp add: get_next_file_def Let_def processing_count_def split: sum.splits)

lemma set_current_index_processing:
  "processing_count (snd (set_current_index i q)) = processing_count q"
  by (simp add: set_current_index_def processing_count_def)

lemma clear_processing: "processing_count (clear q) = 0"
  by (simp add: clear_def processing_count_def)

lemma apply_op_processing:
  assumes "processing_count q \<le> 1"
  shows "processing_count (apply_op opn q) \<le> 1"
proof (cases opn)
  case (AddFiles ps)
  then show ?thesis using assms by (simp add: add_files_def add_files_loop_processing)
next
  case (RemoveFile i)
  with remove_file_processing [of i q] assms show ?thesis by simp
next
  case (MoveFile f t)
  then show ?thesis using assms by (simp add: move_file_processing)
next
  case GetNextFile
  then show ?thesis using assms by (simp add: get_next_file_processing)
next
  case (SetCurrentIndex i)
  then show ?thesis using assms by (simp add: set_current_index_processing)
next
  case (SetFileState i st)
  then show ?thesis using assms set_file_state_processing [of q i st] by simp
next
  case Clear
  then show ?thesis by (simp add: clear_processing)
qed

lemma run_ops_processing:
  "processing_count q \<le> 1 \<Longrightarrow> processing_count (run_ops ops q) \<le> 1"
proof (induction ops arbitrary: q)
  case Nil
  then show ?case by simp
next
  case (Cons opn ops)
  from Cons.prems have "processing_count (apply_op opn q) \<le> 1" by (rule apply_op_processing)
  then have "processing_count (run_ops ops (apply_op opn q)) \<le> 1" by (rule Cons.IH)
  then show ?case by simp
qed

lemma set_file_state_processing_result:
  assumes "set_file_state index PROCESSING q = (True, q')"
  shows "in_range index q \<and> length (items q') = length (items q)
    \<and> current_index q' = current_index q
    \<and> (\<forall>j<length (items q). items q' ! j =
          (if int j = index then (items q ! j)\<lparr>state := PROCESSING\<rparr>
           else if state (items q ! j) = PROCESSING then (items q ! j)\<lparr>state := PENDING\<rparr>
           else items q ! j))"
proof -
  from assms have r: "in_range index q"
    by (auto simp: set_file_state_def in_range_def split: if_splits)
  with assms have q': "q' = q\<lparr>items := (demote_others index 0 (items q))
      [nat index := (demote_others index 0 (items q) ! nat index)\<lparr>state := PROCESSING\<rparr>]\<rparr>"
    by (auto simp: set_file_state_def in_range_def Let_def)
  show ?thesis using r
    by (auto simp: q' length_demote_others nth_demote_others nth_list_update in_range_def)
qed

subsection \<open>Length and cursor bounds\<close>

lemma add_files_loop_bounds:
  "queue_bounds q \<Longrightarrow> queue_bounds (snd (add_files_loop ps a q))"
proof (induction ps arbitrary: a q)
  case Nil
  then show ?case by simp
next
  case (Cons p ps)
  have "queue_bounds (q\<lparr>items := items q @ [new_item p]\<rparr>)" if "\<not> is_full q"
    using that Cons.prems by (simp add: queue_bounds_def is_full_def)
  with Cons show ?case by simp
qed

lemma remove_file_bounds: "queue_bounds q \<Longrightarrow> queue_bounds (snd (remove_file index q))"
  by (auto simp: remove_file_def queue_bounds_def Let_def length_pop_at)

lemma move_file_bounds: "queue_bounds q \<Longrightarrow> queue_bounds (snd (move_file f t q))"
  by (auto simp: move_file_def queue_bounds_def Let_def length_pop_at length_insert_at)

lemma get_next_file_bounds: "queue_bounds q \<Longrightarrow> queue_bounds (snd (get_next_file q))"
  by (auto simp: get_next_file_def queue_bounds_def has_next_def Let_def split: sum.splits)

lemma set_current_index_bounds: "queue_bounds q \<Longrightarrow> queue_bounds (snd (set_current_index i q))"
  by (auto simp: set_current_index_def queue_bounds_def)

lemma set_file_state_bounds: "queue_bounds q \<Longrightarrow> queue_bounds (snd (set_file_state i st q))"
  by (auto simp: set_file_state_def queue_bounds_def Let_def length_demote_others)

lemma clear_bounds: "queue_bounds (clear q)"
  by (simp add: clear_def queue_bounds_def)

lemma apply_op_bounds: "queue_bounds q \<Longrightarrow> queue_bounds (apply_op opn q)"
  by (cases opn)
    (simp_all add: add_files_def add_files_loop_bounds remove_file_bounds move_file_bounds
      get_next_file_bounds set_current_index_bounds set_file_state_bounds clear_bounds)

lemma run_ops_bounds: "queue_bounds q \<Longrightarrow> queue_bounds (run_ops ops q)"
  by (induction ops arbitrary: q) (simp_all add: apply_op_bounds)

lemma new_queue_bounds: "queue_bounds new_queue"
  by (simp add: new_queue_def queue_bounds_def)

section \<open>Queue invariants\<close>

text \<open>
  Claim C2. Starting from a freshly constructed queue, after any sequence of queue
  calls (\<open>add_files\<close>, \<open>remove_file\<close>, \<open>move_file\<close>, and also the remaining
  operations of the class) the queue holds at most \<open>MAX_FILES = 5\<close> items and the
  cursor \<open>current_index\<close> lies between \<open>-1\<close> and \<open>len - 1\<close>; this includes the empty
  queue, where the cursor is \<open>-1\<close>.
\<close>

theorem queue_length_and_cursor_bounds:
  "length (items (run_ops ops new_queue)) \<le> 5
   \<and> - 1 \<le> current_index (run_ops ops new_queue)
   \<and> current_index (run_ops ops new_queue) \<le> int (length (items (run_ops ops new_queue))) - 1"
  using run_ops_bounds [OF new_queue_bounds, of ops]
  by (simp add: queue_bounds_def MAX_FILES_def)

text \<open>
  Claim C1. Starting from a freshly constructed queue, after any sequence of queue
  calls at most one item is \<open>PROCESSING\<close>. A call \<open>set_file_state index PROCESSING\<close>
  succeeds exactly for an index in range, and then, in the one step, the item at
  \<open>index\<close> becomes \<open>PROCESSING\<close>, every other item that was \<open>PROCESSING\<close> becomes
  \<open>PENDING\<close>, and nothing else changes.
\<close>

theorem single_processing_slot:
  "processing_count (run_ops ops new_queue) \<le> 1
   \<and> (set_file_state index PROCESSING q = (True, q') \<longrightarrow>
        in_range index q \<and> length (items q') = length (items q)
        \<and> current_index q' = current_index q
        \<and> (\<forall>j<length (items q). items q' ! j =
              (if int j = index then (items q ! j)\<lparr>state := PROCESSING\<rparr>
               else if state (items q ! j) = PROCESSING then (items q ! j)\<lparr>state := PENDING\<rparr>
               else items q ! j)))
   \<and> (in_range index q \<longrightarrow> fst (set_file_state index PROCESSING q))"
proof -
  have "processing_count new_queue \<le> 1"
    by (simp add: processing_count_def new_queue_def)
  then have "processing_count (run_ops ops new_queue) \<le> 1"
    by (rule run_ops_processing)
  moreover have "fst (set_file_state index PROCESSING q)" if "in_range index q"
    using that by (simp add: set_file_state_def in_range_def Let_def)
  ultimately show ?thesis
    using set_file_state_processing_result [of index q q'] by blast
qed

theorem single_processing_slot_witness:
  "processing_count
     (run_ops [AddFiles [''a.wav'', ''b.wav''], SetFileState 0 PROCESSING,
               SetFileState 1 PROCESSING] new_queue) \<le> 1
   \<and> map state (items (run_ops [AddFiles [''a.wav'', ''b.wav''],
                                  SetFileState 0 PROCESSING] new_queue))
       = [PROCESSING, PENDING]
   \<and> fst (set_file_state 1 PROCESSING
        (run_ops [AddFiles [''a.wav'', ''b.wav''], SetFileState 0 PROCESSING] new_queue))
   \<and> map state (items (snd (set_file_state 1 PROCESSING
        (run_ops [AddFiles [''a.wav'', ''b.wav''], SetFileState 0 PROCESSING] new_queue))))
       = [PENDING, PROCESSING]"
proof -
  let ?q = "run_ops [AddFiles [''a.wav'', ''b.wav''], SetFileState 0 PROCESSING] new_queue"
  have r: "in_range 1 ?q" by code_simp
  have s: "map state (items ?q) = [PROCESSING, PENDING]" by code_simp
  have t: "map state (items (snd (set_file_state 1 PROCESSING ?q))) = [PENDING, PROCESSING]"
    by code_simp
  from single_processing_slot
    [of "[AddFiles [''a.wav'', ''b.wav''], SetFileState 0 PROCESSING, SetFileState 1 PROCESSING]"
        1 ?q "snd (set_file_state 1 PROCESSING ?q)"] r s t
  show ?thesis by blast
qed

section \<open>Reordering\<close>

lemma move_file_tracks:
  assumes f: "f < length xs" and t: "t < length xs" and ne: "f \<noteq> t" and c: "c < length xs"
  shows "insert_at t (xs ! f) (pop_at f xs)
           ! (if c = f then t else if f < c \<and> c \<le> t then c - 1
              else if t \<le> c \<and> c < f then c + 1 else c) = xs ! c"
proof -
  have len: "length (pop_at f xs) = length xs - 1" using f by (rule length_pop_at)
  have t': "t \<le> length (pop_at f xs)" using t len by simp
  consider "c = f" | "f < c" "c \<le> t" | "t \<le> c" "c < f" | "c < f" "c < t" | "f < c" "t < c"
    using ne by linarith
  then show ?thesis
  proof cases
    case 1
    then show ?thesis using t' by (simp add: nth_insert_at)
  next
    case 2
    then obtain d where d: "c = Suc d" by (cases c) auto
    with 2 have "insert_at t (xs ! f) (pop_at f xs) ! d = pop_at f xs ! d"
      using t' by (simp add: nth_insert_at)
    also have "\<dots> = xs ! c" using 2 f c d by (simp add: nth_pop_at)
    finally show ?thesis using 2 d by simp
  next
    case 3
    then have "Suc c \<le> length (pop_at f xs)" using f len by simp
    from nth_insert_at [OF t' this, of "xs ! f"] 3
    have "insert_at t (xs ! f) (pop_at f xs) ! (c + 1) = pop_at f xs ! c" by simp
    also have "\<dots> = xs ! c" using 3 f c by (simp add: nth_pop_at)
    finally show ?thesis using 3 by simp
  next
    case 4
    then have "insert_at t (xs ! f) (pop_at f xs) ! c = pop_at f xs ! c"
      using t' by (simp add: nth_insert_at)
    also have "\<dots> = xs ! c" using 4 f c by (simp add: nth_pop_at)
    finally show ?thesis using 4 by simp
  next
    case 5
    then obtain d where d: "c = Suc d" by (cases c) auto
    have "c \<le> length (pop_at f xs)" using c len by simp
    from nth_insert_at [OF t' this, of "xs ! f"] 5 d
    have "insert_at t (xs ! f) (pop_at f xs) ! c = pop_at f xs ! d" by simp
    also have "\<dots> = xs ! c" using 5 f c d by (simp add: nth_pop_at)
    finally show ?thesis using 5 by simp
  qed
qed

text \<open>
  Claim C4. \<open>move_file\<close> fails and leaves the queue as it is when either index is out
  of range; succeeds without a change when both indices are equal; and otherwise puts
  the item of position \<open>from_index\<close> at position \<open>to_index\<close>, keeps the order of the
  other items, and repairs the cursor: it becomes \<open>to_index\<close> when it was
  \<open>from_index\<close>, moves down by one when \<open>from_index < current_index \<le> to_index\<close>,
  up by one when \<open>to_index \<le> current_index < from_index\<close>, and stays otherwise; a
  cursor that pointed at an item still points at that item.
\<close>

theorem move_file_relocates:
  "(\<not> in_range from_index q \<or> \<not> in_range to_index q \<longrightarrow>
      move_file from_index to_index q = (False, q))
   \<and> (in_range from_index q \<and> to_index = from_index \<longrightarrow>
      move_file from_index to_index q = (True, q))
   \<and> (in_range from_index q \<and> in_range to_index q \<and> from_index \<noteq> to_index \<longrightarrow>
      fst (move_file from_index to_index q)
      \<and> length (items (snd (move_file from_index to_index q))) = length (items q)
      \<and> items (snd (move_file from_index to_index q)) ! nat to_index
          = items q ! nat from_index
      \<and> pop_at (nat to_index) (items (snd (move_file from_index to_index q)))
          = pop_at (nat from_index) (items q)
      \<and> current_index (snd (move_file from_index to_index q))
          = (if current_index q = from_index then to_index
             else if from_index < current_index q \<and> current_index q \<le> to_index
               then current_index q - 1
             else if to_index \<le> current_index q \<and> current_index q < from_index
               then current_index q + 1
             else current_index q)
      \<and> (in_range (current_index q) q \<longrightarrow>
           items (snd (move_file from_index to_index q))
             ! nat (current_index (snd (move_file from_index to_index q)))
           = items q ! nat (current_index q)))"
proof (intro conjI impI)
  assume "\<not> in_range from_index q \<or> \<not> in_range to_index q"
  then show "move_file from_index to_index q = (False, q)"
    by (auto simp: move_file_def in_range_def)
next
  assume "in_range from_index q \<and> to_index = from_index"
  then show "move_file from_index to_index q = (True, q)"
    by (auto simp: move_file_def in_range_def)
next
  assume a: "in_range from_index q \<and> in_range to_index q \<and> from_index \<noteq> to_index"
  let ?f = "nat from_index" and ?t = "nat to_index"
  let ?its = "insert_at ?t (items q ! ?f) (pop_at ?f (items q))"
  from a have f: "?f < length (items q)" and t: "?t < length (items q)" and ne: "?f \<noteq> ?t"
    by (auto simp: in_range_def)
  have mv: "move_file from_index to_index q =
    (True, \<lparr>items = ?its,
            current_index =
              (if current_index q = from_index then to_index
               else if from_index < current_index q \<and> current_index q \<le> to_index
                 then current_index q - 1
               else if to_index \<le> current_index q \<and> current_index q < from_index
                 then current_index q + 1
               else current_index q)\<rparr>)"
    using a by (simp add: move_file_def in_range_def Let_def)
  have len: "length (pop_at ?f (items q)) = length (items q) - 1" using f by (rule length_pop_at)
  show "fst (move_file from_index to_index q)" by (simp add: mv)
  show "length (items (snd (move_file from_index to_index q))) = length (items q)"
    using f by (simp add: mv length_insert_at len)
  show "items (snd (move_file from_index to_index q)) ! ?t = items q ! ?f"
    using t len by (simp add: mv nth_insert_at)
  show "pop_at ?t (items (snd (move_file from_index to_index q))) = pop_at ?f (items q)"
    using t len by (simp add: mv pop_at_insert_at)
  show "current_index (snd (move_file from_index to_index q))
          = (if current_index q = from_index then to_index
             else if from_index < current_index q \<and> current_index q \<le> to_index
               then current_index q - 1
             else if to_index \<le> current_index q \<and> current_index q < from_index
               then current_index q + 1
             else current_index q)"
    by (simp add: mv)
  assume "in_range (current_index q) q"
  then have c: "nat (current_index q) < length (items q)" and c0: "0 \<le> current_index q"
    by (auto simp: in_range_def)
  have idx: "nat (if current_index q = from_index then to_index
             else if from_index < current_index q \<and> current_index q \<le> to_index
               then current_index q - 1
             else if to_index \<le> current_index q \<and> current_index q < from_index
               then current_index q + 1
             else current_index q)
     = (if nat (current_index q) = ?f then ?t
        else if ?f < nat (current_index q) \<and> nat (current_index q) \<le> ?t
          then nat (current_index q) - 1
        else if ?t \<le> nat (current_index q) \<and> nat (current_index q) < ?f
          then nat (current_index q) + 1
        else nat (current_index q))"
    using a c0 by (auto simp: in_range_def nat_diff_distrib nat_add_distrib)
  show "items (snd (move_file from_index to_index q))
             ! nat (current_index (snd (move_file from_index to_index q)))
           = items q ! nat (current_index q)"
    unfolding mv snd_conv file_queue.simps idx
    by (rule move_file_tracks [OF f t ne c])
qed

text \<open>
  The scenario of the claim: in the queue \<open>[A, B, C]\<close> with the cursor on \<open>A\<close>,
  \<open>move_file 0 2\<close> gives \<open>[B, C, A]\<close> with the cursor at \<open>2\<close>.
\<close>

theorem move_file_relocates_witness:
  "in_range 0 (run_ops [AddFiles [''A.wav'', ''B.wav'', ''C.wav''], SetCurrentIndex 0] new_queue)
   \<and> in_range 2 (run_ops [AddFiles [''A.wav'', ''B.wav'', ''C.wav''], SetCurrentIndex 0] new_queue)
   \<and> map file_path
        (items (run_ops [AddFiles [''A.wav'', ''B.wav'', ''C.wav''], SetCurrentIndex 0] new_queue))
       = [''A.wav'', ''B.wav'', ''C.wav'']
   \<and> current_index
        (run_ops [AddFiles [''A.wav'', ''B.wav'', ''C.wav''], SetCurrentIndex 0] new_queue) = 0
   \<and> fst (move_file 0 2
        (run_ops [AddFiles [''A.wav'', ''B.wav'', ''C.wav''], SetCurrentIndex 0] new_queue))
   \<and> map file_path (items (snd (move_file 0 2
        (run_ops [AddFiles [''A.wav'', ''B.wav'', ''C.wav''], SetCurrentIndex 0] new_queue))))
       = [''B.wav'', ''C.wav'', ''A.wav'']
   \<and> current_index (snd (move_file 0 2
        (run_ops [AddFiles [''A.wav'', ''B.wav'', ''C.wav''], SetCurrentIndex 0] new_queue))) = 2"
proof -
  let ?q = "run_ops [AddFiles [''A.wav'', ''B.wav'', ''C.wav''], SetCurrentIndex 0] new_queue"
  have r0: "in_range 0 ?q" and r2: "in_range 2 ?q" by code_simp+
  have ci: "current_index ?q = 0" by code_simp
  have before: "map file_path (items ?q) = [''A.wav'', ''B.wav'', ''C.wav'']" by code_simp
  have after: "map file_path (items (snd (move_file 0 2 ?q))) = [''B.wav'', ''C.wav'', ''A.wav'']"
    by code_simp
  have "fst (move_file 0 2 ?q) \<and> current_index (snd (move_file 0 2 ?q)) = 2"
    using move_file_relocates [of 0 ?q 2] r0 r2 ci by simp
  with r0 r2 ci before after show ?thesis by blast
qed

section \<open>Adding a path twice\<close>

text \<open>
  Claim C10. \<open>add_files\<close> does not look for duplicates: when the queue has fewer than
  five items, one of them with path \<open>p\<close>, and \<open>p\<close> has a supported extension, then
  \<open>add_files [p]\<close> returns 1, keeps the old items where they were and appends a new
  item with the same path, so that two different positions hold the path \<open>p\<close>.
\<close>

theorem add_files_no_dedup:
  assumes "length (items q) < 5" and "i < length (items q)"
    and "file_path (items q ! i) = p" and "is_valid_format p"
  shows "fst (add_files [p] q) = 1
    \<and> length (items (snd (add_files [p] q))) = length (items q) + 1
    \<and> take (length (items q)) (items (snd (add_files [p] q))) = items q
    \<and> i \<noteq> length (items q)
    \<and> file_path (items (snd (add_files [p] q)) ! i) = p
    \<and> file_path (items (snd (add_files [p] q)) ! length (items q)) = p"
  using assms
  by (simp add: add_files_def is_full_def MAX_FILES_def nth_append new_item_def)

theorem add_files_no_dedup_witness:
  "length (items (snd (add_files [''a.WAV''] new_queue))) < 5
   \<and> (0::nat) < length (items (snd (add_files [''a.WAV''] new_queue)))
   \<and> file_path (items (snd (add_files [''a.WAV''] new_queue)) ! 0) = ''a.WAV''
   \<and> is_valid_format ''a.WAV''
   \<and> fst (add_files [''a.WAV''] (snd (add_files [''a.WAV''] new_queue))) = 1
   \<and> map file_path (items (snd (add_files [''a.WAV''] (snd (add_files [''a.WAV''] new_queue)))))
       = [''a.WAV'', ''a.WAV'']"
proof -
  let ?q = "snd (add_files [''a.WAV''] new_queue)"
  have h1: "length (items ?q) < 5" by code_simp
  have h2: "0 < length (items ?q)" by code_simp
  have h3: "file_path (items ?q ! 0) = ''a.WAV''" by code_simp
  have h4: "is_valid_format ''a.WAV''" by code_simp
  have both: "map file_path (items (snd (add_files [''a.WAV''] ?q))) = [''a.WAV'', ''a.WAV'']"
    by code_simp
  have "fst (add_files [''a.WAV''] ?q) = 1"
    using add_files_no_dedup [OF h1 h2 h3 h4] by simp
  with h1 h2 h3 h4 both show ?thesis by blast
qed

section \<open>The lifecycle states\<close>

text \<open>
  Claim C9, as the code has it. \<open>FileState\<close> has exactly the five members
  \<open>PENDING\<close>, \<open>PROCESSING\<close>, \<open>READY\<close>, \<open>PLAYING\<close> and \<open>COMPLETED\<close>, pairwise
  different, with the values \<open>pending\<close>, \<open>processing\<close>, \<open>ready\<close>, \<open>playing\<close> and
  \<open>completed\<close>.
\<close>

lemma file_state_UNIV: "(UNIV :: file_state set) = {PENDING, PROCESSING, READY, PLAYING, COMPLETED}"
proof
  show "UNIV \<subseteq> {PENDING, PROCESSING, READY, PLAYING, COMPLETED}"
  proof
    fix s :: file_state
    show "s \<in> {PENDING, PROCESSING, READY, PLAYING, COMPLETED}" by (cases s) simp_all
  qed
qed simp

theorem file_state_five_members:
  "(UNIV :: file_state set) = {PENDING, PROCESSING, READY, PLAYING, COMPLETED}
   \<and> card (UNIV :: file_state set) = 5
   \<and> distinct [PENDING, PROCESSING, READY, PLAYING, COMPLETED]
   \<and> map file_state_value [PENDING, PROCESSING, READY, PLAYING, COMPLETED]
       = [''pending'', ''processing'', ''ready'', ''playing'', ''completed'']"
  by (simp add: file_state_UNIV)

text \<open>
  The claim as the specification words it asks for six members, one of them a failed
  state: the type has five, and no member has the value \<open>failed\<close>.
\<close>

theorem file_state_six_members_counterexample:
  "card (UNIV :: file_state set) \<noteq> 6 \<and> ''failed'' \<notin> range file_state_value"
proof -
  have "card (UNIV :: file_state set) = 5" by (simp add: file_state_UNIV)
  moreover have "file_state_value s \<noteq> ''failed''" for s by (cases s) simp_all
  then have "''failed'' \<notin> range file_state_value" by (metis rangeE)
  ultimately show ?thesis by simp
qed

section \<open>The caption index\<close>

lemma scan_segments_None:
  "scan_segments segs k t = None \<longleftrightarrow> (\<forall>i<length segs. \<not> active (segs ! i) t)"
proof (induction segs arbitrary: k)
  case Nil
  then show ?case by simp
next
  case (Cons s segs)
  show ?case
    by (auto simp: Cons.IH active_def nth_Cons split: nat.splits)
qed

lemma scan_segments_Some:
  "scan_segments segs k t = Some r \<Longrightarrow>
   \<exists>i<length segs. r = int (k + i) \<and> active (segs ! i) t"
proof (induction segs arbitrary: k)
  case Nil
  then show ?case by simp
next
  case (Cons s segs)
  show ?case
  proof (cases "start_time s \<le> t \<and> t < end_time s")
    case True
    with Cons.prems have "r = int k" by simp
    with True show ?thesis by (auto simp: active_def)
  next
    case False
    with Cons.prems have "scan_segments segs (Suc k) t = Some r" by simp
    from Cons.IH [OF this] obtain i where "i < length segs" "r = int (Suc k + i)"
      "active (segs ! i) t" by blast
    then have "Suc i < length (s # segs) \<and> r = int (k + Suc i) \<and> active ((s # segs) ! Suc i) t"
      by simp
    then show ?thesis by blast
  qed
qed

lemma ordered_non_overlapping_nth:
  "ordered_non_overlapping segs \<Longrightarrow> i < j \<Longrightarrow> j < length segs \<Longrightarrow>
   start_time (segs ! i) \<le> start_time (segs ! j) \<and> end_time (segs ! i) \<le> start_time (segs ! j)"
proof (induction segs arbitrary: i j)
  case Nil
  then show ?case by simp
next
  case (Cons s segs)
  from Cons.prems obtain j' where j': "j = Suc j'" "j' < length segs" by (cases j) auto
  show ?case
  proof (cases i)
    case 0
    from Cons.prems(1) j' have "start_time s \<le> start_time (segs ! j') \<and> end_time s \<le> start_time (segs ! j')"
      by (simp add: list_all_length)
    with 0 j' show ?thesis by simp
  next
    case (Suc i')
    with Cons.prems j' have "i' < j'" by simp
    from Cons.IH [OF _ this j'(2)] Cons.prems(1) Suc j' show ?thesis by simp
  qed
qed

lemma active_unique:
  assumes "ordered_non_overlapping segs" "i < length segs" "j < length segs"
    "active (segs ! i) t" "active (segs ! j) t"
  shows "i = j"
proof (rule ccontr)
  assume "i \<noteq> j"
  then consider "i < j" | "j < i" by linarith
  then show False
  proof cases
    case 1
    from ordered_non_overlapping_nth [OF assms(1) 1 assms(3)] assms(4,5) show False
      by (simp add: active_def)
  next
    case 2
    from ordered_non_overlapping_nth [OF assms(1) 2 assms(2)] assms(4,5) show False
      by (simp add: active_def)
  qed
qed

lemma get_current_index_none:
  "(\<forall>i<length segs. \<not> active (segs ! i) t) \<Longrightarrow> get_current_index segs t = - 1"
  using scan_segments_None [of segs 0 t] by (simp add: get_current_index_def)

lemma get_current_index_some:
  assumes "ordered_non_overlapping segs" "i < length segs" "active (segs ! i) t"
  shows "get_current_index segs t = int i"
proof -
  from assms(2,3) have "scan_segments segs 0 t \<noteq> None" by (auto simp: scan_segments_None)
  then obtain r where r: "scan_segments segs 0 t = Some r" by auto
  from scan_segments_Some [OF this] obtain j where j: "j < length segs" "r = int j"
    "active (segs ! j) t" by auto
  from active_unique [OF assms(1) j(1) assms(2) j(3) assms(3)] have "j = i" .
  moreover from assms(2) have "segs \<noteq> []" by auto
  ultimately show ?thesis using r j by (simp add: get_current_index_def)
qed

text \<open>
  Claim C3. For a segment list that is ordered by start time and does not overlap,
  and any time \<open>t\<close>, \<open>get_current_index\<close> returns the index of the segment active at
  \<open>t\<close> (there is at most one), and \<open>-1\<close> when no segment is active; this is so
  before the first segment and, for segments that do not end before they start, in a
  gap between two neighbours and at or after the end of the last segment.
\<close>

theorem get_current_index_spec:
  assumes "ordered_non_overlapping segs"
  shows "(\<forall>i<length segs. active (segs ! i) t \<longrightarrow> get_current_index segs t = int i)
    \<and> ((\<forall>i<length segs. \<not> active (segs ! i) t) \<longrightarrow> get_current_index segs t = - 1)
    \<and> (segs \<noteq> [] \<and> t < start_time (hd segs) \<longrightarrow> get_current_index segs t = - 1)
    \<and> ((\<forall>i<length segs. start_time (segs ! i) \<le> end_time (segs ! i)) \<longrightarrow>
         (segs \<noteq> [] \<and> end_time (last segs) \<le> t \<longrightarrow> get_current_index segs t = - 1)
         \<and> (\<forall>i. Suc i < length segs \<and> end_time (segs ! i) \<le> t \<and> t < start_time (segs ! Suc i)
               \<longrightarrow> get_current_index segs t = - 1))"
proof (intro conjI allI impI)
  fix i assume "i < length segs" "active (segs ! i) t"
  then show "get_current_index segs t = int i" by (rule get_current_index_some [OF assms])
next
  assume "\<forall>i<length segs. \<not> active (segs ! i) t"
  then show "get_current_index segs t = - 1" by (rule get_current_index_none)
next
  assume a: "segs \<noteq> [] \<and> t < start_time (hd segs)"
  then have h: "hd segs = segs ! 0" by (simp add: hd_conv_nth)
  have "\<not> active (segs ! i) t" if "i < length segs" for i
  proof (cases i)
    case 0
    with a h show ?thesis by (simp add: active_def)
  next
    case (Suc k)
    from ordered_non_overlapping_nth [OF assms, of 0 i] that Suc a h show ?thesis
      by (simp add: active_def)
  qed
  then show "get_current_index segs t = - 1" by (simp add: get_current_index_none)
next
  assume wf: "\<forall>i<length segs. start_time (segs ! i) \<le> end_time (segs ! i)"
    and a: "segs \<noteq> [] \<and> end_time (last segs) \<le> t"
  let ?n = "length segs - 1"
  from a have n: "?n < length segs" and l: "last segs = segs ! ?n" by (simp_all add: last_conv_nth)
  have "\<not> active (segs ! i) t" if "i < length segs" for i
  proof (cases "i = ?n")
    case True
    with a l show ?thesis by (simp add: active_def)
  next
    case False
    with that have "i < ?n" by simp
    from ordered_non_overlapping_nth [OF assms this n] wf n a l show ?thesis
      by (fastforce simp: active_def)
  qed
  then show "get_current_index segs t = - 1" by (simp add: get_current_index_none)
next
  fix k
  assume wf: "\<forall>i<length segs. start_time (segs ! i) \<le> end_time (segs ! i)"
    and a: "Suc k < length segs \<and> end_time (segs ! k) \<le> t \<and> t < start_time (segs ! Suc k)"
  have "\<not> active (segs ! i) t" if "i < length segs" for i
  proof -
    consider "i < k" | "i = k" | "i = Suc k" | "Suc k < i" by linarith
    then show ?thesis
    proof cases
      case 1
      from a have k: "k < length segs" by simp
      from ordered_non_overlapping_nth [OF assms 1 k] wf k a show ?thesis
        by (fastforce simp: active_def)
    next
      case 2
      with a show ?thesis by (simp add: active_def)
    next
      case 3
      with a show ?thesis by (simp add: active_def)
    next
      case 4
      from ordered_non_overlapping_nth [OF assms 4 that] a show ?thesis
        by (simp add: active_def)
    qed
  qed
  then show "get_current_index segs t = - 1" by (simp add: get_current_index_none)
qed

text \<open>
  The scenario of the claim: with the segments \<open>(0,2)\<close>, \<open>(2,4)\<close>, \<open>(5,7)\<close> the times
  1, 2, 4.5 and 7 give 0, 1, \<open>-1\<close> and \<open>-1\<close>.
\<close>

theorem get_current_index_spec_witness:
  "ordered_non_overlapping [caption 0 2 ''a'', caption 2 4 ''b'', caption 5 7 ''c'']
   \<and> get_current_index [caption 0 2 ''a'', caption 2 4 ''b'', caption 5 7 ''c''] 1 = 0
   \<and> get_current_index [caption 0 2 ''a'', caption 2 4 ''b'', caption 5 7 ''c''] 2 = 1
   \<and> get_current_index [caption 0 2 ''a'', caption 2 4 ''b'', caption 5 7 ''c''] 4.5 = - 1
   \<and> get_current_index [caption 0 2 ''a'', caption 2 4 ''b'', caption 5 7 ''c''] 7 = - 1"
proof -
  let ?segs = "[caption 0 2 ''a'', caption 2 4 ''b'', caption 5 7 ''c'']"
  have ord: "ordered_non_overlapping ?segs" by (simp add: caption_def)
  note found = get_current_index_spec [OF ord, THEN conjunct1, rule_format]
  note absent = get_current_index_spec [OF ord, THEN conjunct2, THEN conjunct1, rule_format]
  have "active (?segs ! 0) 1" by (simp add: active_def caption_def)
  then have t1: "get_current_index ?segs 1 = 0" using found [of 0 1] by simp
  have "active (?segs ! 1) 2" by (simp add: active_def caption_def)
  then have t2: "get_current_index ?segs 2 = 1" using found [of 1 2] by simp
  have "\<forall>i<length ?segs. \<not> active (?segs ! i) 4.5"
    by (simp add: active_def caption_def All_less_Suc)
  then have t3: "get_current_index ?segs 4.5 = - 1" using absent [of "4.5"] by blast
  have "\<forall>i<length ?segs. \<not> active (?segs ! i) 7"
    by (simp add: active_def caption_def All_less_Suc)
  then have t4: "get_current_index ?segs 7 = - 1" using absent [of 7] by blast
  from ord t1 t2 t3 t4 show ?thesis by blast
qed

section \<open>Batch translation\<close>

subsection \<open>One batch\<close>

lemma build_results_length [simp]:
  "length (build_results parsed src tgt i segs) = length segs"
  by (induction segs arbitrary: i) simp_all

lemma build_results_carries:
  "list_all2 carries segs (build_results parsed src tgt i segs)"
  by (induction segs arbitrary: i) (simp_all add: carries_def)

lemma build_results_languages:
  "out \<in> set (build_results parsed src tgt i segs) \<Longrightarrow>
   source_language out = src \<and> target_language out = tgt"
  by (induction segs arbitrary: i) auto

lemma build_results_empty: "build_results [] src tgt i segs = map (echo src tgt) segs"
  by (induction segs arbitrary: i) (simp_all add: echo_def)

lemma build_results_nth:
  "k < length segs \<Longrightarrow>
   translated_text (build_results parsed src tgt i segs ! k) =
     (case map_of parsed (int (i + k) + 1) of Some t \<Rightarrow> t | None \<Rightarrow> ts_text (segs ! k))"
proof (induction segs arbitrary: i k)
  case Nil
  then show ?case by simp
next
  case (Cons s segs)
  then show ?case by (cases k) (auto split: option.splits)
qed

lemma single_batch_unfold:
  "translate_single_batch L sv segs src tgt off n =
     (map_sum id (\<lambda>parsed. build_results parsed src tgt 0 segs)
        (parsed_reply L (fst (call_ollama L sv (batch_prompt L segs src tgt) n)) (length segs)),
      snd (call_ollama L sv (batch_prompt L segs src tgt) n))"
  by (simp add: translate_single_batch_def Let_def split_beta split: sum.splits)

lemma single_batch_offset:
  "translate_single_batch L sv segs src tgt off n = translate_single_batch L sv segs src tgt 0 n"
  by (simp add: translate_single_batch_def)

lemma single_batch_carries:
  "fst (translate_single_batch L sv segs src tgt off n) = Inr out \<Longrightarrow> list_all2 carries segs out"
  by (cases "parsed_reply L (fst (call_ollama L sv (batch_prompt L segs src tgt) n)) (length segs)")
    (auto simp: single_batch_unfold build_results_carries)

lemma single_batch_failed:
  "fst (call_ollama L sv (batch_prompt L segs src tgt) n) = Inl e \<Longrightarrow>
   fst (translate_single_batch L sv segs src tgt off n) = Inr (map (echo src tgt) segs)"
  by (simp add: single_batch_unfold build_results_empty parsed_reply_def)

lemma single_batch_nth:
  "fst (translate_single_batch L sv chunk src tgt off m) = Inr out \<Longrightarrow> i < length chunk \<Longrightarrow>
   \<exists>parsed. parsed_reply L (fst (call_ollama L sv (batch_prompt L chunk src tgt) m))
               (length chunk) = Inr parsed
     \<and> translated_text (out ! i) =
         (case map_of parsed (int i + 1) of Some t \<Rightarrow> t | None \<Rightarrow> ts_text (chunk ! i))"
  by (cases "parsed_reply L (fst (call_ollama L sv (batch_prompt L chunk src tgt) m)) (length chunk)")
    (auto simp: single_batch_unfold build_results_nth)

lemma echo_carries: "list_all2 carries segs (map (echo src tgt) segs)"
  by (induction segs) (simp_all add: carries_def echo_def)

lemma ollama_attempts_counter:
  "Suc n \<le> snd (ollama_attempts L sv prompt attempt n)
   \<and> snd (ollama_attempts L sv prompt attempt n) \<le> Suc n + (max_retries - 1 - attempt)"
proof (induction L sv prompt attempt n rule: ollama_attempts.induct)
  case (1 L sv prompt attempt n)
  show ?case
  proof (cases "sv n prompt")
    case (Inr response)
    then show ?thesis by (subst (1 2) ollama_attempts.simps) simp
  next
    case (Inl e)
    show ?thesis
    proof (cases "attempt < max_retries - 1")
      case True
      have "snd (ollama_attempts L sv prompt attempt n)
            = snd (ollama_attempts L sv prompt (Suc attempt) (Suc n))"
        using True Inl by (subst ollama_attempts.simps) simp
      with "1.IH" [OF Inl True] True show ?thesis by (simp add: max_retries_def) arith
    next
      case False
      with Inl show ?thesis by (subst (1 2) ollama_attempts.simps) simp
    qed
  qed
qed

lemma call_ollama_counter:
  "n < snd (call_ollama L sv prompt n) \<and> snd (call_ollama L sv prompt n) \<le> n + 3"
  using ollama_attempts_counter [of n L sv prompt 0]
  by (simp add: call_ollama_def max_retries_def)

lemma ollama_attempts_down:
  "\<forall>k p. isl (sv k p) \<Longrightarrow> isl (fst (ollama_attempts L sv prompt attempt n))"
proof (induction L sv prompt attempt n rule: ollama_attempts.induct)
  case (1 L sv prompt attempt n)
  from "1.prems" obtain e where e: "sv n prompt = Inl e" by (metis isl_def)
  show ?case
  proof (cases "attempt < max_retries - 1")
    case True
    from "1.IH" [OF e True "1.prems"] e True show ?thesis
      by (subst ollama_attempts.simps) simp
  next
    case False
    with e show ?thesis by (subst ollama_attempts.simps) simp
  qed
qed

lemma call_ollama_three_failures:
  assumes "sv n prompt = Inl e0" "sv (Suc n) prompt = Inl e1" "sv (Suc (Suc n)) prompt = Inl e2"
  shows "call_ollama L sv prompt n = (Inl (TranslatorError e2), n + 3)"
proof -
  have "ollama_attempts L sv prompt 2 (Suc (Suc n)) = (Inl (TranslatorError e2), n + 3)"
    using assms(3) by (subst ollama_attempts.simps) (simp add: max_retries_def)
  then have "ollama_attempts L sv prompt 1 (Suc n) = (Inl (TranslatorError e2), n + 3)"
    using assms(2) by (subst ollama_attempts.simps) (simp add: max_retries_def numeral_2_eq_2)
  then have "ollama_attempts L sv prompt 0 n = (Inl (TranslatorError e2), n + 3)"
    using assms(1) by (subst ollama_attempts.simps) (simp add: max_retries_def)
  then show ?thesis by (simp add: call_ollama_def)
qed

lemma chunks_of_Nil: "chunks_of k [] = []"
  by (subst chunks_of.simps) simp

lemma chunks_of_Cons:
  "0 < k \<Longrightarrow> xs \<noteq> [] \<Longrightarrow> chunks_of k xs = take k xs # chunks_of k (drop k xs)"
  by (subst chunks_of.simps) simp

lemma chunks_of_concat: "0 < k \<Longrightarrow> concat (chunks_of k xs) = xs"
proof (induction k xs rule: chunks_of.induct)
  case (1 k xs)
  show ?case
  proof (cases "xs = []")
    case True
    then show ?thesis by (simp add: chunks_of_Nil)
  next
    case False
    with "1.prems" have "k \<noteq> 0 \<and> xs \<noteq> []" by simp
    then have "\<not> (k = 0 \<or> xs = [])" by simp
    from "1.IH" [OF this "1.prems"] False "1.prems" show ?thesis
      by (simp add: chunks_of_Cons)
  qed
qed

lemma chunks_of_sizes:
  "0 < k \<Longrightarrow> c \<in> set (chunks_of k xs) \<Longrightarrow> 0 < length c \<and> length c \<le> k"
proof (induction k xs arbitrary: c rule: chunks_of.induct)
  case (1 k xs)
  show ?case
  proof (cases "xs = []")
    case True
    with "1.prems" show ?thesis by (simp add: chunks_of_Nil)
  next
    case False
    with "1.prems" have c: "c = take k xs \<or> c \<in> set (chunks_of k (drop k xs))"
      by (simp add: chunks_of_Cons)
    from False "1.prems" have g: "\<not> (k = 0 \<or> xs = [])" by simp
    from c show ?thesis
    proof
      assume "c = take k xs"
      with False "1.prems" show ?thesis by auto
    next
      assume "c \<in> set (chunks_of k (drop k xs))"
      from "1.IH" [OF g "1.prems"(1) this] show ?thesis .
    qed
  qed
qed

lemma chunks_of_nth:
  "0 < k \<Longrightarrow> j < length (chunks_of k xs) \<Longrightarrow> chunks_of k xs ! j = take k (drop (j * k) xs)"
proof (induction k xs arbitrary: j rule: chunks_of.induct)
  case (1 k xs)
  show ?case
  proof (cases "xs = []")
    case True
    with "1.prems" show ?thesis by (simp add: chunks_of_Nil)
  next
    case False
    from False "1.prems" have g: "\<not> (k = 0 \<or> xs = [])" by simp
    show ?thesis
    proof (cases j)
      case 0
      with False "1.prems" show ?thesis by (simp add: chunks_of_Cons)
    next
      case (Suc j')
      with False "1.prems" have "j' < length (chunks_of k (drop k xs))"
        by (simp add: chunks_of_Cons)
      from "1.IH" [OF g "1.prems"(1) this] False "1.prems" Suc show ?thesis
        by (simp add: chunks_of_Cons add.commute)
    qed
  qed
qed

lemma carries_nth:
  "list_all2 carries segs outs \<Longrightarrow> i < length segs \<Longrightarrow>
   start_time (outs ! i) = ts_start_time (segs ! i) \<and> end_time (outs ! i) = ts_end_time (segs ! i)
   \<and> original_text (outs ! i) = ts_text (segs ! i)"
  by (auto simp: list_all2_conv_all_nth carries_def)

subsection \<open>The whole list\<close>

text \<open>
  Claim C7. For every segment list and language pair \<open>translate_batch\<close> returns a list
  (the only exception of the call, \<^verbatim>\<open>TranslatorError\<close>, is caught inside) of the length of
  its input whose \<open>i\<close>-th element carries the start time, the end time and the text of
  the \<open>i\<close>-th input. For different languages the result is that of translating the
  consecutive chunks of ten segments one after the other, concatenated in order. A call
  makes between one and three requests; when it fails, the whole chunk repeats its
  original texts, and in any chunk an item without an entry in the parsed answer repeats
  its original text. With a service that refuses every request the whole result repeats
  the original texts.
\<close>

subsection \<open>The whole list\<close>

lemma map_sum_append_Nil: "map_sum id ((@) []) x = x"
  by (cases x) simp_all

lemma run_chunks_Cons_raise:
  "fst (translate_single_batch L sv c src tgt 0 n) = Inl e \<Longrightarrow>
   run_chunks L sv src tgt (c # chunks) n = (Inl e, snd (translate_single_batch L sv c src tgt 0 n))"
  by (cases "translate_single_batch L sv c src tgt 0 n") simp

lemma run_chunks_Cons_return:
  "fst (translate_single_batch L sv c src tgt 0 n) = Inr r \<Longrightarrow>
   run_chunks L sv src tgt (c # chunks) n =
     (map_sum id ((@) r)
        (fst (run_chunks L sv src tgt chunks (snd (translate_single_batch L sv c src tgt 0 n)))),
      snd (run_chunks L sv src tgt chunks (snd (translate_single_batch L sv c src tgt 0 n))))"
  by (cases "translate_single_batch L sv c src tgt 0 n")
    (auto split: prod.splits sum.splits)

lemma translate_chunks_run:
  "translate_chunks L sv segs src tgt bs acc n =
     (map_sum id ((@) acc) (fst (run_chunks L sv src tgt (chunks_of BATCH_SIZE (drop bs segs)) n)),
      snd (run_chunks L sv src tgt (chunks_of BATCH_SIZE (drop bs segs)) n))"
proof (induction L sv segs src tgt bs acc n rule: translate_chunks.induct)
  case (1 L sv segs src tgt bs acc n)
  show ?case
  proof (cases "bs < length segs")
    case False
    then show ?thesis by (subst translate_chunks.simps) (simp add: chunks_of_Nil)
  next
    case True
    let ?batch = "take (min (bs + BATCH_SIZE) (length segs) - bs) (drop bs segs)"
    have batch: "?batch = take BATCH_SIZE (drop bs segs)"
      using True by (simp add: min_def)
    have ne: "drop bs segs \<noteq> []" using True by simp
    have ch: "chunks_of BATCH_SIZE (drop bs segs) =
      take BATCH_SIZE (drop bs segs) # chunks_of BATCH_SIZE (drop (bs + BATCH_SIZE) segs)"
      using ne by (simp add: chunks_of_Cons BATCH_SIZE_def add.commute)
    obtain r n' where r: "translate_single_batch L sv ?batch src tgt bs n = (r, n')"
      by (cases "translate_single_batch L sv ?batch src tgt bs n")
    then have r0: "translate_single_batch L sv (take BATCH_SIZE (drop bs segs)) src tgt 0 n = (r, n')"
      using single_batch_offset [of L sv ?batch src tgt bs n] batch by simp
    show ?thesis
    proof (cases r)
      case (Inl e)
      have "translate_chunks L sv segs src tgt bs acc n = (Inl e, n')"
        using True r Inl by (subst translate_chunks.simps) (simp add: Let_def)
      moreover have "run_chunks L sv src tgt (chunks_of BATCH_SIZE (drop bs segs)) n = (Inl e, n')"
        unfolding ch using r0 Inl by simp
      ultimately show ?thesis by simp
    next
      case (Inr rs)
      have step: "translate_chunks L sv segs src tgt bs acc n =
        translate_chunks L sv segs src tgt (bs + BATCH_SIZE) (acc @ rs) n'"
        using True r Inr by (subst translate_chunks.simps) (simp add: Let_def)
      have ih: "translate_chunks L sv segs src tgt (bs + BATCH_SIZE) (acc @ rs) n' =
        (map_sum id ((@) (acc @ rs))
           (fst (run_chunks L sv src tgt (chunks_of BATCH_SIZE (drop (bs + BATCH_SIZE) segs)) n')),
         snd (run_chunks L sv src tgt (chunks_of BATCH_SIZE (drop (bs + BATCH_SIZE) segs)) n'))"
        using r Inr by (intro "1.IH" [OF True refl refl]) simp_all
      have run: "run_chunks L sv src tgt (chunks_of BATCH_SIZE (drop bs segs)) n =
        (map_sum id ((@) rs)
           (fst (run_chunks L sv src tgt (chunks_of BATCH_SIZE (drop (bs + BATCH_SIZE) segs)) n')),
         snd (run_chunks L sv src tgt (chunks_of BATCH_SIZE (drop (bs + BATCH_SIZE) segs)) n'))"
        unfolding ch using run_chunks_Cons_return [of L sv "take BATCH_SIZE (drop bs segs)" src tgt n rs]
          r0 Inr by simp
      show ?thesis
        unfolding step ih run
        by (cases "fst (run_chunks L sv src tgt
              (chunks_of BATCH_SIZE (drop (bs + BATCH_SIZE) segs)) n')") simp_all
    qed
  qed
qed

lemma run_chunks_carries:
  "fst (run_chunks L sv src tgt chunks n) = Inr out \<Longrightarrow> list_all2 carries (concat chunks) out"
proof (induction chunks arbitrary: n out)
  case Nil
  then show ?case by simp
next
  case (Cons c chunks)
  show ?case
  proof (cases "fst (translate_single_batch L sv c src tgt 0 n)")
    case (Inl e)
    from run_chunks_Cons_raise [OF this] Cons.prems show ?thesis by simp
  next
    case (Inr r)
    let ?n' = "snd (translate_single_batch L sv c src tgt 0 n)"
    from run_chunks_Cons_return [OF Inr, of chunks] Cons.prems
    obtain rs where rs: "fst (run_chunks L sv src tgt chunks ?n') = Inr rs" and out: "out = r @ rs"
      by (cases "fst (run_chunks L sv src tgt chunks ?n')") auto
    from single_batch_carries [OF Inr] have "list_all2 carries c r" .
    moreover from Cons.IH [OF rs] have "list_all2 carries (concat chunks) rs" .
    ultimately show ?thesis unfolding out concat.simps by (rule list_all2_appendI)
  qed
qed

lemma run_chunks_down:
  "\<forall>k p. isl (sv k p) \<Longrightarrow>
   fst (run_chunks L sv src tgt chunks n) = Inr (map (echo src tgt) (concat chunks))"
proof (induction chunks arbitrary: n)
  case Nil
  then show ?case by simp
next
  case (Cons c chunks)
  from Cons.prems have "isl (fst (call_ollama L sv (batch_prompt L c src tgt) n))"
    by (simp add: call_ollama_def ollama_attempts_down)
  then obtain e where "fst (call_ollama L sv (batch_prompt L c src tgt) n) = Inl e"
    by (auto simp: isl_def)
  then have "fst (translate_single_batch L sv c src tgt 0 n) = Inr (map (echo src tgt) c)"
    by (rule single_batch_failed)
  from run_chunks_Cons_return [OF this, of chunks] Cons.IH [OF Cons.prems] show ?case
    by simp
qed

lemma translate_batch_chunks:
  "src \<noteq> tgt \<Longrightarrow>
   translate_batch L sv segs src tgt n = run_chunks L sv src tgt (chunks_of 10 segs) n"
proof (cases "segs = []")
  case True
  then show ?thesis by (simp add: translate_batch_def chunks_of_Nil)
next
  case False
  assume "src \<noteq> tgt"
  with False show ?thesis
    by (simp add: translate_batch_def should_translate_def translate_chunks_run BATCH_SIZE_def
        map_sum_append_Nil)
qed

lemma translate_batch_same:
  "translate_batch L sv segs lang lang n = (Inr (map (echo lang lang) segs), n)"
  by (cases "segs = []") (simp_all add: translate_batch_def should_translate_def echo_def)

text \<open>Whenever \<open>translate_batch\<close> returns, its result has the length and the order of its input.\<close>

lemma translate_batch_carries:
  "fst (translate_batch L sv segs src tgt n) = Inr out \<Longrightarrow> list_all2 carries segs out"
proof (cases "src = tgt")
  case True
  assume "fst (translate_batch L sv segs src tgt n) = Inr out"
  with True show ?thesis by (auto simp: translate_batch_same echo_carries)
next
  case False
  assume "fst (translate_batch L sv segs src tgt n) = Inr out"
  then have "fst (run_chunks L sv src tgt (chunks_of 10 segs) n) = Inr out"
    by (simp add: translate_batch_chunks [OF False])
  from run_chunks_carries [OF this] show ?thesis by (simp add: chunks_of_concat)
qed

text \<open>With a service that refuses every request it returns, and repeats the original texts.\<close>

lemma translate_batch_offline:
  assumes "\<forall>k p. isl (sv k p)"
  shows "fst (translate_batch L sv segs src tgt n) = Inr (map (echo src tgt) segs)"
proof (cases "src = tgt")
  case True
  then show ?thesis by (simp add: translate_batch_same)
next
  case False
  from run_chunks_down [OF assms, of L src tgt "chunks_of 10 segs" n]
  show ?thesis by (simp add: translate_batch_chunks [OF False] chunks_of_concat)
qed

text \<open>It returns whenever \<^verbatim>\<open>int\<close> accepts every group it is given.\<close>

lemma store_lines_returns:
  "\<forall>s. py_int L s \<noteq> None \<Longrightarrow> \<exists>d. store_lines L ls result = Inr d"
proof (induction ls arbitrary: result)
  case Nil
  then show ?case by simp
next
  case (Cons l ls)
  show ?case
  proof (cases "re_match L l")
    case None
    with Cons.IH [OF Cons.prems] show ?thesis by simp
  next
    case (Some g)
    obtain g1 g2 where g: "g = (g1, g2)" by (cases g)
    from Cons.prems obtain idx where idx: "py_int L g1 = Some idx" by auto
    from Cons.IH [OF Cons.prems] Some g idx show ?thesis by simp
  qed
qed

lemma single_batch_returns:
  assumes "\<forall>s. py_int L s \<noteq> None"
  shows "\<exists>out. fst (translate_single_batch L sv segs src tgt off n) = Inr out"
proof -
  have "\<exists>d. parsed_reply L answer k = Inr d" for answer k
    using store_lines_returns [OF assms]
    by (cases answer) (simp_all add: parsed_reply_def parse_numbered_text_def Let_def)
  then obtain d where
    "parsed_reply L (fst (call_ollama L sv (batch_prompt L segs src tgt) n)) (length segs) = Inr d"
    by blast
  then show ?thesis by (simp add: single_batch_unfold)
qed

lemma run_chunks_returns:
  assumes "\<forall>s. py_int L s \<noteq> None"
  shows "\<exists>out. fst (run_chunks L sv src tgt chunks n) = Inr out"
proof (induction chunks arbitrary: n)
  case Nil
  then show ?case by simp
next
  case (Cons c chunks)
  from single_batch_returns [OF assms] obtain r where
    r: "fst (translate_single_batch L sv c src tgt 0 n) = Inr r" by blast
  from Cons.IH obtain rs where
    "fst (run_chunks L sv src tgt chunks (snd (translate_single_batch L sv c src tgt 0 n))) = Inr rs"
    by blast
  with run_chunks_Cons_return [OF r, of chunks] show ?case by simp
qed

lemma translate_batch_returns:
  assumes "\<forall>s. py_int L s \<noteq> None"
  shows "\<exists>out. fst (translate_batch L sv segs src tgt n) = Inr out"
proof (cases "src = tgt")
  case True
  then show ?thesis by (simp add: translate_batch_same)
next
  case False
  from run_chunks_returns [OF assms] show ?thesis by (simp add: translate_batch_chunks [OF False])
qed

subsection \<open>An answer with a very long number\<close>

lemma takeWhile_digits_long_reply:
  "takeWhile is_digit (replicate k CHR ''9'' @ ''] x'') = replicate k CHR ''9''"
  by (induction k) (simp_all add: is_digit_def)

lemma bracket_number_long_reply:
  "0 < k \<Longrightarrow> bracket_number (long_reply k) = Some (replicate k CHR ''9'', ''x'')"
  by (simp add: bracket_number_def long_reply_def takeWhile_digits_long_reply Let_def)

lemma limited_int_long: "4300 < k \<Longrightarrow> limited_int (replicate k c) = None"
  by (simp add: limited_int_def)

lemma first_pass_skips_long_number:
  "4300 < k \<Longrightarrow> store_matches one_number_lib (re_findall one_number_lib (long_reply k)) [] = []"
  by (simp add: one_number_lib_def bracket_number_long_reply limited_int_long)

lemma second_pass_raises_on_long_number:
  "4300 < k \<Longrightarrow>
   store_lines one_number_lib (splitlines one_number_lib (long_reply k)) [] = Inl ValueError"
  by (simp add: one_number_lib_def bracket_number_long_reply limited_int_long)

lemma parse_raises_on_long_number:
  "4300 < k \<Longrightarrow> 0 < expected \<Longrightarrow>
   parse_numbered_text one_number_lib (long_reply k) expected = Inl ValueError"
  by (simp add: parse_numbered_text_def first_pass_skips_long_number
      second_pass_raises_on_long_number)

lemma call_ollama_answered:
  "sv n prompt = Inr reply \<Longrightarrow> call_ollama L sv prompt n = (Inr (strip L reply), Suc n)"
  by (simp add: call_ollama_def ollama_attempts.simps)

lemma single_batch_raises_on_long_number:
  assumes "4300 < k" and "segs \<noteq> []" and "\<forall>m p. sv m p = Inr (long_reply k)"
  shows "translate_single_batch one_number_lib sv segs src tgt off n = (Inl ValueError, Suc n)"
proof -
  have "call_ollama one_number_lib sv (batch_prompt one_number_lib segs src tgt) n
        = (Inr (long_reply k), Suc n)"
    using assms(3) call_ollama_answered [of sv n _ "long_reply k" one_number_lib]
    by (simp add: one_number_lib_def)
  moreover have "0 < length segs" using assms(2) by simp
  ultimately show ?thesis
    using parse_raises_on_long_number [OF assms(1), of "length segs"]
    by (simp add: single_batch_unfold parsed_reply_def)
qed

lemma translate_batch_raises_on_long_number:
  assumes "4300 < k" and "segs \<noteq> []" and "src \<noteq> tgt" and "\<forall>m p. sv m p = Inr (long_reply k)"
  shows "translate_batch one_number_lib sv segs src tgt n = (Inl ValueError, Suc n)"
proof -
  from assms(2) have ch: "chunks_of 10 segs = take 10 segs # chunks_of 10 (drop 10 segs)"
    by (simp add: chunks_of_Cons)
  from assms(2) have "take 10 segs \<noteq> []" by (cases segs) simp_all
  from single_batch_raises_on_long_number [OF assms(1) this assms(4), of src tgt 0 n]
  show ?thesis by (simp add: translate_batch_chunks [OF assms(3)] ch)
qed

text \<open>
  Claim C7, at the input where the code departs from it. The claim holds of every run
  that returns (\<open>translate_batch_carries\<close>, \<open>translate_batch_chunks\<close>), and a failed call
  does make its chunk repeat the original texts (\<open>single_batch_failed\<close>,
  \<open>translate_batch_offline\<close>); but \<open>translate_batch\<close> does not return for every input.
  When the service answers a one-segment batch with \<open>[99...9] x\<close>, a number of 4301
  digits, the first pass of the parser skips the match, the second pass raises
  \<^verbatim>\<open>ValueError\<close>, and \<open>translate_batch\<close> raises it after one request. With the answer
  \<open>[1] x\<close> the same call returns the translation \<open>x\<close>.
\<close>

theorem translate_batch_raises_value_error:
  "fst (translate_batch one_number_lib long_number [line ''a''] ''ja'' ''zh'' 0) = Inl ValueError
   \<and> snd (translate_batch one_number_lib long_number [line ''a''] ''ja'' ''zh'' 0) = 1
   \<and> store_matches one_number_lib (re_findall one_number_lib (long_reply 4301)) [] = []
   \<and> store_lines one_number_lib (splitlines one_number_lib (long_reply 4301)) [] = Inl ValueError
   \<and> translate_batch one_number_lib short_number [line ''a''] ''ja'' ''zh'' 0
       = (Inr [\<lparr>start_time = 0, end_time = 1, original_text = ''a'', translated_text = ''x'',
                source_language = ''ja'', target_language = ''zh''\<rparr>], 1)"
proof -
  have k: "(4300::nat) < 4301" by simp
  have sv: "\<forall>m p. long_number m p = Inr (long_reply 4301)" by (simp add: long_number_def)
  have "translate_batch one_number_lib long_number [line ''a''] ''ja'' ''zh'' 0
        = (Inl ValueError, Suc 0)"
    by (rule translate_batch_raises_on_long_number [OF k _ _ sv]) simp_all
  moreover have "translate_batch one_number_lib short_number [line ''a''] ''ja'' ''zh'' 0
       = (Inr [\<lparr>start_time = 0, end_time = 1, original_text = ''a'', translated_text = ''x'',
                source_language = ''ja'', target_language = ''zh''\<rparr>], 1)"
    by code_simp
  ultimately show ?thesis
    using first_pass_skips_long_number [OF k] second_pass_raises_on_long_number [OF k] by simp
qed

subsection \<open>Equal languages\<close>

text \<open>
  Claim C8. When the source language equals the target language, \<open>translate_batch\<close> on
  a non-empty list returns, for every segment, an output whose translated text is its
  original text, and the number of requests made is unchanged: no request is sent
  (every call of the service would have raised that number).
\<close>

theorem translate_batch_same_language:
  assumes "segs \<noteq> []"
  shows "fst (translate_batch L sv segs lang lang n) = Inr (map (echo lang lang) segs)
    \<and> length (map (echo lang lang) segs) = length segs
    \<and> (\<forall>out \<in> set (map (echo lang lang) segs). translated_text out = original_text out)
    \<and> snd (translate_batch L sv segs lang lang n) = n
    \<and> (\<forall>prompt m. m < snd (call_ollama L sv prompt m))"
  using call_ollama_counter [of _ L sv]
  by (auto simp: translate_batch_same echo_def)

theorem translate_batch_same_language_witness:
  "map line [''a'', ''b''] \<noteq> []
   \<and> fst (translate_batch test_lib offline (map line [''a'', ''b'']) ''zh'' ''zh'' 7)
       = Inr (map (echo ''zh'' ''zh'') (map line [''a'', ''b'']))
   \<and> map translated_text (map (echo ''zh'' ''zh'') (map line [''a'', ''b''])) = [''a'', ''b'']
   \<and> snd (translate_batch test_lib offline (map line [''a'', ''b'']) ''zh'' ''zh'' 7) = 7"
proof -
  have ne: "map line [''a'', ''b''] \<noteq> []" by simp
  have texts: "map translated_text (map (echo ''zh'' ''zh'') (map line [''a'', ''b'']))
       = [''a'', ''b'']" by code_simp
  from translate_batch_same_language [OF ne, of test_lib offline "''zh''" 7] ne texts
  show ?thesis by blast
qed

section \<open>The result cache and the handlers of the main window\<close>

lemma start_processing_cache [simp]:
  "subtitle_cache (start_processing path w) = subtitle_cache w"
  by (simp add: start_processing_def Let_def)

lemma process_next_unprocessed_cache [simp]:
  "subtitle_cache (process_next_unprocessed w) = subtitle_cache w"
  by (simp add: process_next_unprocessed_def split: option.splits)

text \<open>Selecting a file that has a cache entry shows that entry and starts no worker.\<close>

lemma on_file_selected_cached:
  "subtitle_cache w path = Some manager \<Longrightarrow>
   started (on_file_selected path w) = started w
   \<and> subtitles (on_file_selected path w) = Some manager
   \<and> subtitle_cache (on_file_selected path w) = subtitle_cache w"
  by (simp add: on_file_selected_def load_from_cache_def)

text \<open>The error handler writes no cache entry, shows one box, and never touches an item state itself.\<close>

lemma on_error_cache: "subtitle_cache (on_error msg w) = subtitle_cache w"
  by (simp add: on_error_def Let_def)

lemma on_error_not_auto:
  "\<not> auto_processing w \<Longrightarrow>
   file_queue (on_error msg w) = file_queue w \<and> started (on_error msg w) = started w
   \<and> error_boxes (on_error msg w) = error_boxes w @ [msg]"
  by (simp add: on_error_def Let_def)

text \<open>
  Claim C5, at the input where the code departs from it. After the session
  \<open>both_processed\<close> the cache holds the result of \<open>b.wav\<close> and three workers have been
  started (two for \<open>a.wav\<close>, one for \<open>b.wav\<close>); selecting \<open>a.wav\<close> again has started
  none. When playback of \<open>a.wav\<close> then finishes, the handler moves to \<open>b.wav\<close> and
  starts a fourth worker for it, with the progress bar, although its result is cached.
\<close>

theorem playback_finished_reprocesses_cached:
  "subtitle_cache (run_events both_processed new_main_window) ''b.wav'' = Some [caption 0 3 ''b'']
   \<and> started (run_events (take 3 both_processed) new_main_window)
       = [''a.wav'', ''a.wav'', ''b.wav'']
   \<and> started (run_events both_processed new_main_window) = [''a.wav'', ''a.wav'', ''b.wav'']
   \<and> current_file (file_queue (on_playback_finished (run_events both_processed new_main_window)))
       = Some ''b.wav''
   \<and> subtitle_cache (on_playback_finished (run_events both_processed new_main_window)) ''b.wav''
       = Some [caption 0 3 ''b'']
   \<and> started (on_playback_finished (run_events both_processed new_main_window))
       = [''a.wav'', ''a.wav'', ''b.wav'', ''b.wav'']
   \<and> shown (on_playback_finished (run_events both_processed new_main_window)) = Progress"
  by code_simp

text \<open>
  Claim C6, at the inputs where the code departs from it. A single file is added and
  its worker reports an error: no cache entry is written and one error box is shown,
  but the item is still \<open>PROCESSING\<close>, and auto mode has started the same file again.
  Outside auto mode (a failure of the run that follows the end of playback in the
  session above) the item stays \<open>PROCESSING\<close> with no new worker started.
\<close>

theorem on_error_leaves_item_processing:
  "map state (items (file_queue
      (run_events [AddClicked [''a.wav''], WorkerError ''load failed''] new_main_window)))
     = [PROCESSING]
   \<and> subtitle_cache
        (run_events [AddClicked [''a.wav''], WorkerError ''load failed''] new_main_window) ''a.wav''
       = None
   \<and> error_boxes (run_events [AddClicked [''a.wav''], WorkerError ''load failed''] new_main_window)
       = [''load failed'']
   \<and> started (run_events [AddClicked [''a.wav''], WorkerError ''load failed''] new_main_window)
       = [''a.wav'', ''a.wav'', ''a.wav'']
   \<and> auto_processing
        (run_events (both_processed @ [PlaybackFinished, WorkerError ''load failed''])
           new_main_window) = False
   \<and> map state (items (file_queue
        (run_events (both_processed @ [PlaybackFinished, WorkerError ''load failed''])
           new_main_window)))
       = [COMPLETED, PROCESSING]
   \<and> started (run_events (both_processed @ [PlaybackFinished, WorkerError ''load failed''])
        new_main_window)
       = [''a.wav'', ''a.wav'', ''b.wav'', ''b.wav'']"
  by code_simp

end
